theory Spec2Isabelle
  imports Complex_Main "HOL-Library.Word" "HOL-Library.Product_Lexorder"
begin

unbundle bit_operations_syntax

section \<open>Common declarations\<close>

text \<open>
  Two ways in which a call does not return normally: \<open>Fatal\<close> is the abort of
  \<^verbatim>\<open>BPS_LOG(FATAL)\<close>, \<^verbatim>\<open>BPS_CHECK\<close> and \<^verbatim>\<open>CHECK\<close>; \<open>Undefined\<close> marks behaviour the language
  leaves undefined (an access outside an array, a division by zero, a shift of an
  \<^verbatim>\<open>int\<close> by 32 or more).
\<close>

datatype error = Fatal | Undefined

text \<open>
  The data type tags named by the \<^verbatim>\<open>case\<close> labels of \<^verbatim>\<open>sum\<close> and \<^verbatim>\<open>sparse_sum\<close>
  (\<^verbatim>\<open>utils.h\<close>). A tensor carries its tag as an \<^verbatim>\<open>int\<close> that is cast to the
  enumeration, so any other value can arrive: \<open>BYTEPS_OTHER\<close> stands for all of them.
\<close>

datatype DataType =
    BYTEPS_FLOAT32 | BYTEPS_FLOAT64 | BYTEPS_FLOAT16 | BYTEPS_UINT8
  | BYTEPS_INT32 | BYTEPS_INT8 | BYTEPS_INT64 | BYTEPS_OTHER

text \<open>
  \<^verbatim>\<open>getDataTypeLength\<close> is declared in \<^verbatim>\<open>common.h\<close>: the size in bytes of one element, the
  \<^verbatim>\<open>sizeof(T)\<close> of the type each \<^verbatim>\<open>case\<close> label of \<^verbatim>\<open>sum\<close> selects; an unknown tag is fatal.
\<close>

fun getDataTypeLength :: "DataType \<Rightarrow> error + nat" where
  "getDataTypeLength BYTEPS_FLOAT32 = Inr 4"
| "getDataTypeLength BYTEPS_FLOAT64 = Inr 8"
| "getDataTypeLength BYTEPS_FLOAT16 = Inr 2"
| "getDataTypeLength BYTEPS_UINT8 = Inr 1"
| "getDataTypeLength BYTEPS_INT32 = Inr 4"
| "getDataTypeLength BYTEPS_INT8 = Inr 1"
| "getDataTypeLength BYTEPS_INT64 = Inr 8"
| "getDataTypeLength BYTEPS_OTHER = Inl Fatal"

section \<open>Hyper-parameter lookup (\<^verbatim>\<open>utils.h\<close>)\<close>

text \<open>\<^verbatim>\<open>kwargs_t\<close> is an unordered map from strings to strings.\<close>

type_synonym kwargs_t = "string \<rightharpoonup> string"

text \<open>
  \<^verbatim>\<open>HyperParamFinder<T>(kwargs, name, optional, check)\<close>. The extraction
  \<^verbatim>\<open>ss >> value\<close> of the standard library is the parameter \<open>from_str\<close>, and \<open>dflt\<close> is the
  value-initialised \<^verbatim>\<open>T()\<close>.
\<close>

definition HyperParamFinder ::
  "(string \<Rightarrow> 'a) \<Rightarrow> 'a \<Rightarrow> kwargs_t \<Rightarrow> string \<Rightarrow> bool \<Rightarrow> ('a \<Rightarrow> bool) \<Rightarrow> error + 'a" where
  "HyperParamFinder from_str dflt kwargs name optional check =
     (let val = dflt in
      case kwargs name of
        None \<Rightarrow> if optional = False then Inl Fatal else Inr val
      | Some s \<Rightarrow>
          (let val = from_str s in
           if \<not> check val then Inl Fatal else Inr val))"

text \<open>
  A reader of unsigned decimals for the examples: the value of the leading digits of
  the string, \<open>0\<close> when there is none (as the extraction does on a failed read). It
  stands for the extraction on short strings of digits only: it reads no sign, no
  fraction and no exponent, and it does not model what the extraction stores when the
  value does not fit the type.
\<close>

definition digit_val :: "char \<Rightarrow> nat option" where
  "digit_val c =
     (let n = (of_char c :: nat) in if 48 \<le> n \<and> n \<le> 57 then Some (n - 48) else None)"

fun read_digits :: "nat \<Rightarrow> string \<Rightarrow> nat" where
  "read_digits acc [] = acc"
| "read_digits acc (c # cs) =
     (case digit_val c of None \<Rightarrow> acc | Some d \<Rightarrow> read_digits (10 * acc + d) cs)"

definition extract_unsigned :: "string \<Rightarrow> 32 word" where
  "extract_unsigned s = word_of_nat (read_digits 0 s)"

definition extract_float :: "string \<Rightarrow> real" where
  "extract_float s = real (read_digits 0 s)"

section \<open>The xorshift128+ generator (\<^verbatim>\<open>utils.h\<close>)\<close>

record xorshift128p_state =
  rng_a :: "64 word"
  rng_b :: "64 word"

definition set_seed :: "64 word \<Rightarrow> xorshift128p_state" where
  "set_seed seed = \<lparr>rng_a = seed, rng_b = seed\<rparr>"

definition xorshift128p :: "xorshift128p_state \<Rightarrow> 64 word \<times> xorshift128p_state" where
  "xorshift128p st =
     (let t = rng_a st;
          s = rng_b st;
          t = t XOR push_bit 23 t;
          t = t XOR drop_bit 17 t;
          t = t XOR (s XOR drop_bit 26 s)
      in (t + s, \<lparr>rng_a = s, rng_b = t\<rparr>))"



section \<open>Sparse error feedback: registration and construction\<close>

text \<open>
  The fields of \<^verbatim>\<open>SparseErrorFeedbackCompressor\<close> that its constructor and
  \<^verbatim>\<open>UpdateGradient\<close> use. \<open>'c\<close> is the inner compressor, \<open>'a\<close> the scalar type of the
  tensors; the learning rates are held in the same scalar type. The error buffer
  \<^verbatim>\<open>_buf\<close> is a pointer.
\<close>

record ('a, 'c) SparseErrorFeedbackCompressor =
  sef_size :: nat
  sef_dtype :: DataType
  sef_cptr :: 'c
  sef_buf :: nat
  sef_k :: nat
  sef_rng :: xorshift128p_state
  sef_selected_idx :: "32 word list"
  sef_pre_lr :: 'a
  sef_cur_lr :: 'a

text \<open>
  The constructor. \<open>rng0\<close> is the generator as its own constructor left it (seeded from
  \<^verbatim>\<open>std::random_device\<close>), \<open>buf0\<close> the address of the buffer the base class allocated, and \<open>lr_s\<close> the
  double read through the mapping of the file \<^verbatim>\<open>lr.s\<close>, \<open>None\<close> when \<^verbatim>\<open>open\<close> or \<^verbatim>\<open>mmap\<close>
  fails. The sum \<^verbatim>\<open>seed + k\<close> is formed in \<^verbatim>\<open>size_t\<close>.
\<close>

definition SparseErrorFeedbackCompressor_new ::
  "nat \<Rightarrow> DataType \<Rightarrow> 'c \<Rightarrow> nat \<Rightarrow> 32 word \<Rightarrow> xorshift128p_state \<Rightarrow> nat \<Rightarrow> 'a option
     \<Rightarrow> error + ('a, 'c) SparseErrorFeedbackCompressor" where
  "SparseErrorFeedbackCompressor_new size0 dtype cptr k seed rng0 buf0 lr_s =
     (let rng = (if seed \<noteq> 0 then set_seed (ucast seed + word_of_nat k) else rng0) in
      case lr_s of
        None \<Rightarrow> Inl Fatal
      | Some lr \<Rightarrow>
          Inr \<lparr>sef_size = size0, sef_dtype = dtype, sef_cptr = cptr, sef_buf = buf0,
               sef_k = k, sef_rng = rng, sef_selected_idx = [],
               sef_pre_lr = lr, sef_cur_lr = lr\<rparr>)"

text \<open>
  The constructor function registered under the name \<^verbatim>\<open>sparse_ef\<close>. The factor is a
  \<^verbatim>\<open>float\<close>, modelled by a real number; \<^verbatim>\<open>static_cast<unsigned>\<close> truncates it.
\<close>

definition sparse_ef_k :: "real \<Rightarrow> nat \<Rightarrow> nat \<Rightarrow> nat" where
  "sparse_ef_k factor size0 dlen =
     (if factor < 1
      then (let k = nat \<lfloor>factor * real size0 / real dlen\<rfloor> in if k = 0 then 1 else k)
      else nat \<lfloor>factor\<rfloor>)"

definition sparse_ef_register ::
  "(string \<Rightarrow> real) \<Rightarrow> (string \<Rightarrow> 32 word) \<Rightarrow> kwargs_t \<Rightarrow> nat \<Rightarrow> DataType \<Rightarrow> 'c option
     \<Rightarrow> xorshift128p_state \<Rightarrow> nat \<Rightarrow> 'a option
     \<Rightarrow> error + ('a, 'c) SparseErrorFeedbackCompressor" where
  "sparse_ef_register from_str_f from_str_u kwargs size0 dtype cptr rng0 buf0 lr_s =
     (case cptr of
        None \<Rightarrow> Inl Fatal
      | Some c \<Rightarrow>
     (case HyperParamFinder from_str_f 0 kwargs ''compressor_k'' False (\<lambda>x. x > 0) of
        Inl e \<Rightarrow> Inl e
      | Inr factor \<Rightarrow>
     (case (if factor < 1 then getDataTypeLength dtype else Inr 1) of
        Inl e \<Rightarrow> Inl e
      | Inr dlen \<Rightarrow>
     (let k = sparse_ef_k factor size0 dlen in
      case HyperParamFinder from_str_u 0 kwargs ''seed'' True (\<lambda>x. x \<noteq> 0) of
        Inl e \<Rightarrow> Inl e
      | Inr seed \<Rightarrow>
          SparseErrorFeedbackCompressor_new size0 dtype c k seed rng0 buf0 lr_s))))"

section \<open>Tensors and the scaled sums (\<^verbatim>\<open>utils.h\<close>)\<close>

text \<open>
  Buffers are addressed by pointers and several operations are handed the same buffer
  twice, so memory is explicit: a store from the address of a buffer to its elements,
  seen at the scalar type \<open>'a\<close> of the tensor. The arithmetic of the scalar type is
  left open: the operations only use its \<open>+\<close>, \<open>*\<close>, \<open>/\<close> and \<open>0\<close>.

  The loops carry the pragma \<^verbatim>\<open>omp parallel for simd\<close>. An iteration of \<^verbatim>\<open>_sum\<close> reads
  and writes element \<open>i\<close> of its buffers and nothing else, so that the iterations do not
  meet and the loop is modelled in index order. The iterations of \<^verbatim>\<open>_sparse_sum\<close> can
  meet, and its model below takes the build and the schedule as a parameter.
\<close>

type_synonym 'a memory = "nat \<Rightarrow> 'a list"

text \<open>\<^verbatim>\<open>tensor_t\<close>: a pointer, a length in bytes and a type tag.\<close>

record tensor_t =
  t_data :: nat
  t_size :: nat
  t_dtype :: DataType

text \<open>
  \<^verbatim>\<open>_sum(dst, src, len, alpha)\<close>: for \<open>i\<close> below \<^verbatim>\<open>len / sizeof(T)\<close>, in index order,
  \<^verbatim>\<open>dst[i] = dst[i] + alpha * src[i]\<close>. \<open>sz\<close> is \<^verbatim>\<open>sizeof(T)\<close>. An index outside a
  buffer is undefined behaviour.
\<close>

fun sum_loop :: "nat \<Rightarrow> nat \<Rightarrow> 'a::{plus,times} memory \<Rightarrow> nat \<Rightarrow> nat \<Rightarrow> 'a \<Rightarrow> error + 'a memory" where
  "sum_loop i 0 mem dst src alpha = Inr mem"
| "sum_loop i (Suc n) mem dst src alpha =
     (if i < length (mem dst) \<and> i < length (mem src)
      then sum_loop (Suc i) n
             (mem(dst := (mem dst)[i := mem dst ! i + alpha * mem src ! i])) dst src alpha
      else Inl Undefined)"

definition sum_T :: "nat \<Rightarrow> 'a::{plus,times} memory \<Rightarrow> nat \<Rightarrow> nat \<Rightarrow> nat \<Rightarrow> 'a \<Rightarrow> error + 'a memory" where
  "sum_T sz mem dst src len alpha = sum_loop 0 (len div sz) mem dst src alpha"

text \<open>\<^verbatim>\<open>sum(dst, src, len, dtype, alpha)\<close>: the dispatch on the type tag.\<close>

fun sum_tensor ::
  "'a::{plus,times} memory \<Rightarrow> nat \<Rightarrow> nat \<Rightarrow> nat \<Rightarrow> DataType \<Rightarrow> 'a \<Rightarrow> error + 'a memory" where
  "sum_tensor mem dst src len BYTEPS_FLOAT32 alpha = sum_T 4 mem dst src len alpha"
| "sum_tensor mem dst src len BYTEPS_FLOAT64 alpha = sum_T 8 mem dst src len alpha"
| "sum_tensor mem dst src len BYTEPS_FLOAT16 alpha = sum_T 2 mem dst src len alpha"
| "sum_tensor mem dst src len BYTEPS_UINT8 alpha = sum_T 1 mem dst src len alpha"
| "sum_tensor mem dst src len BYTEPS_INT32 alpha = sum_T 4 mem dst src len alpha"
| "sum_tensor mem dst src len BYTEPS_INT8 alpha = sum_T 1 mem dst src len alpha"
| "sum_tensor mem dst src len BYTEPS_INT64 alpha = sum_T 8 mem dst src len alpha"
| "sum_tensor mem dst src len BYTEPS_OTHER alpha = Inl Fatal"

text \<open>
  \<^verbatim>\<open>_sum(dst, src1, src2, len, alpha)\<close>: \<^verbatim>\<open>dst[i] = src1[i] + alpha * src2[i]\<close>, and its
  dispatch \<^verbatim>\<open>sum(dst, src1, src2, len, dtype, alpha)\<close>.
\<close>

fun sum3_loop ::
  "nat \<Rightarrow> nat \<Rightarrow> 'a::{plus,times} memory \<Rightarrow> nat \<Rightarrow> nat \<Rightarrow> nat \<Rightarrow> 'a \<Rightarrow> error + 'a memory" where
  "sum3_loop i 0 mem dst src1 src2 alpha = Inr mem"
| "sum3_loop i (Suc n) mem dst src1 src2 alpha =
     (if i < length (mem dst) \<and> i < length (mem src1) \<and> i < length (mem src2)
      then sum3_loop (Suc i) n
             (mem(dst := (mem dst)[i := mem src1 ! i + alpha * mem src2 ! i])) dst src1 src2 alpha
      else Inl Undefined)"

definition sum3_T ::
  "nat \<Rightarrow> 'a::{plus,times} memory \<Rightarrow> nat \<Rightarrow> nat \<Rightarrow> nat \<Rightarrow> nat \<Rightarrow> 'a \<Rightarrow> error + 'a memory" where
  "sum3_T sz mem dst src1 src2 len alpha = sum3_loop 0 (len div sz) mem dst src1 src2 alpha"

fun sum3_tensor ::
  "'a::{plus,times} memory \<Rightarrow> nat \<Rightarrow> nat \<Rightarrow> nat \<Rightarrow> nat \<Rightarrow> DataType \<Rightarrow> 'a \<Rightarrow> error + 'a memory" where
  "sum3_tensor mem dst src1 src2 len BYTEPS_FLOAT32 alpha = sum3_T 4 mem dst src1 src2 len alpha"
| "sum3_tensor mem dst src1 src2 len BYTEPS_FLOAT64 alpha = sum3_T 8 mem dst src1 src2 len alpha"
| "sum3_tensor mem dst src1 src2 len BYTEPS_FLOAT16 alpha = sum3_T 2 mem dst src1 src2 len alpha"
| "sum3_tensor mem dst src1 src2 len BYTEPS_UINT8 alpha = sum3_T 1 mem dst src1 src2 len alpha"
| "sum3_tensor mem dst src1 src2 len BYTEPS_INT32 alpha = sum3_T 4 mem dst src1 src2 len alpha"
| "sum3_tensor mem dst src1 src2 len BYTEPS_INT8 alpha = sum3_T 1 mem dst src1 src2 len alpha"
| "sum3_tensor mem dst src1 src2 len BYTEPS_INT64 alpha = sum3_T 8 mem dst src1 src2 len alpha"
| "sum3_tensor mem dst src1 src2 len BYTEPS_OTHER alpha = Inl Fatal"





section \<open>Sparse error feedback: \<^verbatim>\<open>UpdateGradient\<close> of the server build\<close>



section \<open>Corrected error feedback\<close>

record 'a CorrectedErrorFeedbackCompressor =
  cef_buf :: nat
  cef_pre_lr :: 'a
  cef_cur_lr :: 'a

definition CorrectedErrorFeedbackCompressor_UpdateGradient ::
  "'a::{plus,times,inverse} CorrectedErrorFeedbackCompressor \<Rightarrow> 'a \<Rightarrow> 'a memory \<Rightarrow> tensor_t
     \<Rightarrow> error + ('a CorrectedErrorFeedbackCompressor \<times> 'a memory)" where
  "CorrectedErrorFeedbackCompressor_UpdateGradient c lr mem grad =
     (let c = c\<lparr>cef_cur_lr := lr\<rparr> in
      case sum_tensor mem (t_data grad) (cef_buf c) (t_size grad) (t_dtype grad)
             (cef_pre_lr c / cef_cur_lr c) of
        Inl e \<Rightarrow> Inl e
      | Inr mem' \<Rightarrow> Inr (c\<lparr>cef_pre_lr := cef_cur_lr c\<rparr>, mem'))"

section \<open>Momentum and Nesterov momentum\<close>

record 'a NesterovMomentumCompressor =
  nm_buf :: nat
  nm_mu :: 'a

definition NesterovMomentumCompressor_UpdateMom ::
  "'a::{plus,times} NesterovMomentumCompressor \<Rightarrow> 'a memory \<Rightarrow> tensor_t \<Rightarrow> error + 'a memory" where
  "NesterovMomentumCompressor_UpdateMom c mem grad =
     sum3_tensor mem (nm_buf c) (t_data grad) (nm_buf c) (t_size grad) (t_dtype grad) (nm_mu c)"

definition NesterovMomentumCompressor_UpdateGradient ::
  "'a::{plus,times} NesterovMomentumCompressor \<Rightarrow> 'a memory \<Rightarrow> tensor_t \<Rightarrow> error + 'a memory" where
  "NesterovMomentumCompressor_UpdateGradient c mem grad =
     sum_tensor mem (t_data grad) (nm_buf c) (t_size grad) (t_dtype grad) (nm_mu c)"

text \<open>
  \<^verbatim>\<open>Momentum::Compress\<close> and \<^verbatim>\<open>Momentum::Decompress\<close>. The two virtual functions and
  the operations of the inner compressor \<^verbatim>\<open>_cptr\<close> are parameters; what the inner
  compressor does with the memory, the tensors and its own state is its result \<open>'r\<close>.
\<close>

definition Momentum_Compress ::
  "('a memory \<Rightarrow> tensor_t \<Rightarrow> error + 'a memory) \<Rightarrow> ('a memory \<Rightarrow> tensor_t \<Rightarrow> error + 'a memory)
     \<Rightarrow> ('a memory \<Rightarrow> tensor_t \<Rightarrow> tensor_t \<Rightarrow> 'r) \<Rightarrow> 'a memory \<Rightarrow> tensor_t \<Rightarrow> tensor_t \<Rightarrow> error + 'r" where
  "Momentum_Compress UpdateMom UpdateGradient cptr_Compress mem grad output =
     (case UpdateMom mem grad of
        Inl e \<Rightarrow> Inl e
      | Inr mem1 \<Rightarrow>
     (case UpdateGradient mem1 grad of
        Inl e \<Rightarrow> Inl e
      | Inr mem2 \<Rightarrow> Inr (cptr_Compress mem2 grad output)))"

definition Momentum_Decompress ::
  "('a memory \<Rightarrow> tensor_t \<Rightarrow> tensor_t \<Rightarrow> 'r) \<Rightarrow> 'a memory \<Rightarrow> tensor_t \<Rightarrow> tensor_t \<Rightarrow> 'r" where
  "Momentum_Decompress cptr_Decompress mem compressed output =
     cptr_Decompress mem compressed output"

definition NesterovMomentumCompressor_Compress ::
  "'a::{plus,times} NesterovMomentumCompressor \<Rightarrow> ('a memory \<Rightarrow> tensor_t \<Rightarrow> tensor_t \<Rightarrow> 'r)
     \<Rightarrow> 'a memory \<Rightarrow> tensor_t \<Rightarrow> tensor_t \<Rightarrow> error + 'r" where
  "NesterovMomentumCompressor_Compress c =
     Momentum_Compress (NesterovMomentumCompressor_UpdateMom c)
       (NesterovMomentumCompressor_UpdateGradient c)"

section \<open>Bit writer and bit reader (\<^verbatim>\<open>utils.h\<close>)\<close>

text \<open>
  \<^verbatim>\<open>BitWriter<T>\<close> for an unsigned word type \<^verbatim>\<open>T\<close> of \<open>LENGTH('a)\<close> bits, so that
  \<^verbatim>\<open>PACKING_SIZE = sizeof(T) * 8\<close> is \<open>LENGTH('a)\<close>. The array \<^verbatim>\<open>_dptr\<close> is a store from
  word offsets to words.
\<close>

record (overloaded) ('a::len) BitWriter =
  bw_dptr :: "nat \<Rightarrow> 'a word"
  bw_accum :: "'a word"
  bw_used_bits :: nat
  bw_blocks :: nat

definition BitWriter_new :: "(nat \<Rightarrow> 'a::len word) \<Rightarrow> 'a BitWriter" where
  "BitWriter_new data0 = \<lparr>bw_dptr = data0, bw_accum = 0, bw_used_bits = 0, bw_blocks = 0\<rparr>"

definition Put :: "bool \<Rightarrow> 'a::len BitWriter \<Rightarrow> 'a BitWriter" where
  "Put x w =
     (let accum = push_bit 1 (bw_accum w);
          accum = accum OR (if x then 1 else 0);
          used = bw_used_bits w + 1
      in if used = LENGTH('a)
         then w\<lparr>bw_dptr := (bw_dptr w)(bw_blocks w := accum), bw_accum := accum,
                bw_used_bits := 0, bw_blocks := bw_blocks w + 1\<rparr>
         else w\<lparr>bw_accum := accum, bw_used_bits := used\<rparr>)"

definition Flush :: "'a::len BitWriter \<Rightarrow> 'a BitWriter" where
  "Flush w =
     (if bw_used_bits w > 0
      then (let padding_size = LENGTH('a) - bw_used_bits w;
                accum = push_bit padding_size (bw_accum w)
            in w\<lparr>bw_dptr := (bw_dptr w)(bw_blocks w := accum), bw_accum := accum\<rparr>)
      else w)"

definition bits :: "'a::len BitWriter \<Rightarrow> nat" where
  "bits w = bw_blocks w * LENGTH('a) + bw_used_bits w"

text \<open>
  \<^verbatim>\<open>BitReader<T>\<close>. The constructor leaves \<^verbatim>\<open>_accum\<close> unset; the first \<^verbatim>\<open>Get\<close> loads it
  before reading it, so the model starts it at \<open>0\<close>.

  \<^verbatim>\<open>Get\<close> returns \<^verbatim>\<open>_accum & (1 << --_used_bits)\<close> as a \<^verbatim>\<open>bool\<close>. The literal \<^verbatim>\<open>1\<close> is an
  \<^verbatim>\<open>int\<close> of 32 bits: a shift by 32 or more is undefined, and a shift by 31 gives the
  most negative \<^verbatim>\<open>int\<close>. The \<^verbatim>\<open>&\<close> is then taken in the common type of \<^verbatim>\<open>T\<close> and \<^verbatim>\<open>int\<close>,
  where the accumulator keeps its unsigned value and a negative mask is sign-extended:
  that is the bitwise and of the two integer values.
\<close>

record (overloaded) ('a::len) BitReader =
  br_dptr :: "nat \<Rightarrow> 'a word"
  br_used_bits :: nat
  br_blocks :: nat
  br_accum :: "'a word"

definition BitReader_new :: "(nat \<Rightarrow> 'a::len word) \<Rightarrow> 'a BitReader" where
  "BitReader_new data0 = \<lparr>br_dptr = data0, br_used_bits = 0, br_blocks = 0, br_accum = 0\<rparr>"

definition Get :: "'a::len BitReader \<Rightarrow> error + (bool \<times> 'a BitReader)" where
  "Get r =
     (let r = (if br_used_bits r = 0
               then r\<lparr>br_accum := br_dptr r (br_blocks r), br_blocks := br_blocks r + 1,
                      br_used_bits := LENGTH('a)\<rparr>
               else r);
          r = r\<lparr>br_used_bits := br_used_bits r - 1\<rparr>
      in if 32 \<le> br_used_bits r then Inl Undefined
         else Inr (uint (br_accum r) AND sint (push_bit (br_used_bits r) (1 :: 32 word)) \<noteq> 0, r))"

text \<open>Writing a sequence of bits with \<open>Put\<close>, first bit first, and reading \<open>n\<close> bits with \<open>Get\<close>.\<close>

definition put_bits :: "bool list \<Rightarrow> 'a::len BitWriter \<Rightarrow> 'a BitWriter" where
  "put_bits bs w = fold Put bs w"

fun get_bits :: "nat \<Rightarrow> 'a::len BitReader \<Rightarrow> error + (bool list \<times> 'a BitReader)" where
  "get_bits 0 r = Inr ([], r)"
| "get_bits (Suc n) r =
     (case Get r of
        Inl e \<Rightarrow> Inl e
      | Inr (b, r') \<Rightarrow>
          (case get_bits n r' of
             Inl e \<Rightarrow> Inl e
           | Inr (bs, r'') \<Rightarrow> Inr (b # bs, r'')))"

section \<open>Elias delta coding (\<^verbatim>\<open>utils.h\<close>)\<close>

text \<open>
  \<^verbatim>\<open>std::floor(std::log2(v))\<close> is computed in double precision. An \<^verbatim>\<open>unsigned long\<close>
  argument is first converted to \<^verbatim>\<open>double\<close>, which rounds it to 53 significant bits, to
  nearest and ties to even: \<open>double_of_ulong\<close> is the integer value of the result. The
  integer part of the logarithm of that value is then taken to be exact, which is the
  reading most favourable to the code: \<open>floor_log2 v\<close> is the position of the leading one
  bit of \<open>v\<close>. The logarithm of the library is itself rounded to a double, and for a
  value just below \<open>2^k\<close> with \<open>k \<ge> 49\<close> the rounded logarithm is already \<open>k\<close>; the model
  does not follow the code into that error.
\<close>

fun floor_log2 :: "nat \<Rightarrow> nat" where
  "floor_log2 v = (if v < 2 then 0 else Suc (floor_log2 (v div 2)))"

declare floor_log2.simps [simp del]

definition double_of_ulong :: "64 word \<Rightarrow> nat" where
  "double_of_ulong x =
     (let v = unat x;
          e = floor_log2 v + 1 - 53;
          q = v div 2 ^ e;
          r = v mod 2 ^ e
      in if 2 ^ e < 2 * r \<or> (2 * r = 2 ^ e \<and> odd q) then (q + 1) * 2 ^ e else q * 2 ^ e)"

text \<open>
  \<^verbatim>\<open>EliasDeltaEncode(bit_writer, x)\<close>. For \<open>x = 0\<close> the logarithm is minus infinity and
  its conversion to \<^verbatim>\<open>int\<close> is undefined. The three loops count \<open>i\<close> downwards.
\<close>

definition EliasDeltaEncode :: "'a::len BitWriter \<Rightarrow> 64 word \<Rightarrow> error + 'a BitWriter" where
  "EliasDeltaEncode bit_writer x =
     (if x = 0 then Inl Undefined
      else (let len = 1 + floor_log2 (double_of_ulong x);
                lenth_of_len = floor_log2 len;
                w = fold (\<lambda>i. Put False) (rev [1..<Suc lenth_of_len]) bit_writer;
                w = fold (\<lambda>i. Put (odd (len div 2 ^ i))) (rev [0..<Suc lenth_of_len]) w;
                w = fold (\<lambda>i. Put (bit x i)) (rev [0..<len - 1]) w
            in Inr w))"

text \<open>
  \<^verbatim>\<open>EliasDeltaDecode(bit_reader)\<close>. The first loop counts zero bits in an \<^verbatim>\<open>int\<close>, whose
  increment past its largest value is undefined; \<^verbatim>\<open>len\<close> is an \<^verbatim>\<open>int\<close> and \<^verbatim>\<open>num\<close> an
  \<^verbatim>\<open>unsigned long\<close>.
\<close>

function count_zeros :: "nat \<Rightarrow> 'a::len BitReader \<Rightarrow> error + (nat \<times> 'a BitReader)" where
  "count_zeros n r =
     (case Get r of
        Inl e \<Rightarrow> Inl e
      | Inr (b, r') \<Rightarrow>
          if b then Inr (n, r')
          else if 2 ^ 31 - 1 \<le> n then Inl Undefined
          else count_zeros (n + 1) r')"
  by pat_completeness auto
termination
  by (relation "measure (\<lambda>(n, r). 2 ^ 31 - n)") auto

declare count_zeros.simps [simp del]

fun read_len :: "nat \<Rightarrow> 32 word \<Rightarrow> 'a::len BitReader \<Rightarrow> error + (32 word \<times> 'a BitReader)" where
  "read_len 0 len r = Inr (len, r)"
| "read_len (Suc n) len r =
     (case Get r of
        Inl e \<Rightarrow> Inl e
      | Inr (b, r') \<Rightarrow> read_len n (let len = push_bit 1 len in if b then len OR 1 else len) r')"

fun read_num :: "nat \<Rightarrow> 64 word \<Rightarrow> 'a::len BitReader \<Rightarrow> error + (64 word \<times> 'a BitReader)" where
  "read_num 0 num r = Inr (num, r)"
| "read_num (Suc n) num r =
     (case Get r of
        Inl e \<Rightarrow> Inl e
      | Inr (b, r') \<Rightarrow> read_num n (let num = push_bit 1 num in if b then num OR 1 else num) r')"

definition EliasDeltaDecode :: "'a::len BitReader \<Rightarrow> error + (64 word \<times> 'a BitReader)" where
  "EliasDeltaDecode bit_reader =
     (case count_zeros 0 bit_reader of
        Inl e \<Rightarrow> Inl e
      | Inr (lenth_of_len, r) \<Rightarrow>
     (case read_len lenth_of_len 1 r of
        Inl e \<Rightarrow> Inl e
      | Inr (len, r) \<Rightarrow> read_num (nat (sint len - 1)) 1 r))"

section \<open>The server: data (\<^verbatim>\<open>server.cc\<close>)\<close>

text \<open>
  The request meta data and the key-value pairs of the transport. Pointers are
  addresses, \<open>0\<close> is the null pointer; an array view \<^verbatim>\<open>SArray<char>(data, len, false)\<close> is
  the pair of its address and its length. The key encoding \<^verbatim>\<open>EncodeKey\<close> of the
  transport is kept symbolic.
\<close>

record KVMeta =
  meta_cmd :: int
  meta_push :: bool
  meta_sender :: int
  meta_timestamp :: int

datatype ps_key = EncodeKey "64 word"

record KVPairs =
  kv_keys :: "ps_key list"
  kv_vals :: "nat \<times> nat"
  kv_lens :: "nat list"

definition KVPairs_empty :: KVPairs where
  "KVPairs_empty = \<lparr>kv_keys = [], kv_vals = (0, 0), kv_lens = []\<rparr>"

datatype RequestType =
  kDefaultPushPull | kRowSparsePushPull | kCompressedPushPull | kConfigPushPull

record DataHandleType =
  dh_requestType :: RequestType
  dh_dtype :: int

record BytePSArray =
  ba_tensor :: nat
  ba_len :: nat
  ba_dtype :: int
  ba_tmp_sarray :: KVPairs

record UpdateBuf =
  ub_request :: "KVMeta list"
  ub_merged :: BytePSArray

datatype BytePSEngineOperation = SUM_RECV | COPY_FIRST | ALL_RECV | TERMINATE

record BytePSEngineMessage =
  msg_id :: "64 word"
  msg_type :: DataHandleType
  msg_key :: "64 word"
  msg_dst :: nat
  msg_src :: nat
  msg_len :: nat
  msg_ops :: BytePSEngineOperation
  msg_sarray :: KVPairs
  msg_req_meta :: KVMeta
  msg_mixed_precision :: bool

text \<open>
  What the handlers do to their collaborators, in the order in which they do it: a
  response handed to the transport, a message pushed on the queue of an engine thread,
  the counter of a key cleared on that queue, and the sum and the copy of the reducer
  (with the addresses, the length and the type tag they are given), also in their
  mixed-precision forms \<^verbatim>\<open>sum_mixed_precision\<close> and \<^verbatim>\<open>copy_mixed_precision\<close>.
\<close>

datatype event =
    Response KVMeta KVPairs
  | QueuePush nat BytePSEngineMessage
  | QueueClearCounter nat "64 word"
  | ReducerSum nat nat nat int
  | ReducerCopy nat nat nat
  | ReducerSumMixed nat nat nat int
  | ReducerCopyMixed nat nat nat int bool

text \<open>
  A compressor registered for a key. The class \<^verbatim>\<open>Compressor\<close> is declared in
  \<^verbatim>\<open>compressor.h\<close>; the engine thread only uses the tensor that a call leaves in its
  reference argument. \<open>cpr_Compress\<close> takes the data, the size and the type tag of the
  gradient and the data pointer the \<^verbatim>\<open>compressed\<close> tensor is constructed with, and gives
  the data pointer and the size of \<^verbatim>\<open>compressed\<close> after the call; \<open>cpr_Decompress\<close> takes
  the data, the size and the type tag of the compressed tensor and gives the data, the
  size and the type tag of \<^verbatim>\<open>decompressed\<close> after the call.
\<close>

record Compressor =
  cpr_Compress :: "nat \<Rightarrow> nat \<Rightarrow> int \<Rightarrow> nat \<Rightarrow> nat \<times> nat"
  cpr_Decompress :: "nat \<Rightarrow> nat \<Rightarrow> int \<Rightarrow> nat \<times> nat \<times> int"

text \<open>
  The global state of the server that the push and pull handlers and the engine
  thread use. An unordered map read with \<^verbatim>\<open>operator[]\<close> is a total
  function (a missing entry is the value-initialised one); the maps searched with
  \<^verbatim>\<open>find\<close> are partial. The vectors indexed by the engine thread are functions of its
  index.
\<close>

record server =
  sync_mode :: bool
  is_engine_blocking :: bool
  NumWorkers :: nat
  timestamp :: "64 word"
  update_buf :: "64 word \<Rightarrow> UpdateBuf"
  push_response_map :: "64 word \<rightharpoonup> KVPairs"
  pull_response_map :: "64 word \<rightharpoonup> KVPairs"
  is_push_finished :: "nat \<Rightarrow> 64 word \<rightharpoonup> bool"
  pull_cnt :: "nat \<Rightarrow> 64 word \<Rightarrow> nat"
  seen_sender :: "nat \<Rightarrow> 64 word \<Rightarrow> int set"
  q_pull_reqmeta :: "nat \<Rightarrow> 64 word \<Rightarrow> KVMeta list"
  compressor_map :: "64 word \<rightharpoonup> Compressor"
  fp16_copy :: "64 word \<Rightarrow> BytePSArray"
  trace :: "event list"

section \<open>The server: responses\<close>

definition SendPushResponse :: "64 word \<Rightarrow> KVMeta \<Rightarrow> server \<Rightarrow> server" where
  "SendPushResponse key req st =
     (case push_response_map st key of
        None \<Rightarrow>
          (let response = KVPairs_empty
           in st\<lparr>push_response_map := (push_response_map st)(key \<mapsto> response),
                 trace := trace st @ [Response req response]\<rparr>)
      | Some response \<Rightarrow> st\<lparr>trace := trace st @ [Response req response]\<rparr>)"

definition SendPullResponse ::
  "DataHandleType \<Rightarrow> 64 word \<Rightarrow> KVMeta \<Rightarrow> server \<Rightarrow> error + server" where
  "SendPullResponse type key req_meta st =
     (let updates = update_buf st key in
      if ba_tensor (ub_merged updates) = 0 then Inl Fatal
      else
        (let data = ba_tensor (ub_merged updates);
             len = ba_len (ub_merged updates)
         in case pull_response_map st key of
              None \<Rightarrow>
                (let response = \<lparr>kv_keys = [EncodeKey key], kv_vals = (data, len), kv_lens = [len]\<rparr>
                 in Inr (st\<lparr>pull_response_map := (pull_response_map st)(key \<mapsto> response),
                            trace := trace st @ [Response req_meta response]\<rparr>))
            | Some response \<Rightarrow>
                (let response = response\<lparr>kv_lens := [len], kv_vals := (data, len)\<rparr>
                 in Inr (st\<lparr>pull_response_map := (pull_response_map st)(key \<mapsto> response),
                            trace := trace st @ [Response req_meta response]\<rparr>))))"

section \<open>The server: the engine thread\<close>

text \<open>
  The three assignments that start a step for a key on a shard, made where the key is
  not yet in \<^verbatim>\<open>is_push_finished_\<close> and again when the last pull of a step is served.
\<close>

definition reset_pull_state :: "nat \<Rightarrow> 64 word \<Rightarrow> server \<Rightarrow> server" where
  "reset_pull_state i key st =
     st\<lparr>is_push_finished := (is_push_finished st)(i := (is_push_finished st i)(key \<mapsto> False)),
        pull_cnt := (pull_cnt st)(i := (pull_cnt st i)(key := 0)),
        seen_sender := (seen_sender st)(i := (seen_sender st i)(key := {}))\<rparr>"

definition count_pull :: "nat \<Rightarrow> 64 word \<Rightarrow> int \<Rightarrow> server \<Rightarrow> server" where
  "count_pull i key sender st =
     st\<lparr>pull_cnt := (pull_cnt st)(i := (pull_cnt st i)(key := pull_cnt st i key + 1)),
        seen_sender := (seen_sender st)(i := (seen_sender st i)(key := insert sender (seen_sender st i key)))\<rparr>"

text \<open>
  The \<^verbatim>\<open>while\<close> loop over the parked pull requests of the key. \<open>kept\<close> are the requests
  the iterator has stepped over, \<open>rest\<close> those from the iterator on; an erased request
  is in neither. The queue of the key is \<open>kept @ rest\<close> throughout, and is written back
  when the loop ends or breaks.
\<close>

fun ALL_RECV_loop ::
  "nat \<Rightarrow> BytePSEngineMessage \<Rightarrow> KVMeta list \<Rightarrow> KVMeta list \<Rightarrow> server \<Rightarrow> error + server" where
  "ALL_RECV_loop i msg kept [] st =
     Inr (st\<lparr>q_pull_reqmeta := (q_pull_reqmeta st)(i := (q_pull_reqmeta st i)(msg_key msg := kept))\<rparr>)"
| "ALL_RECV_loop i msg kept (it # rest) st =
     (case (if meta_sender it \<notin> seen_sender st i (msg_key msg)
            then (case SendPullResponse (msg_type msg) (msg_key msg) it st of
                    Inl e \<Rightarrow> Inl e
                  | Inr st' \<Rightarrow> Inr (count_pull i (msg_key msg) (meta_sender it) st', kept))
            else Inr (st, kept @ [it])) of
        Inl e \<Rightarrow> Inl e
      | Inr (st, kept) \<Rightarrow>
          if pull_cnt st i (msg_key msg) = NumWorkers st
          then Inr ((reset_pull_state i (msg_key msg) st)
                      \<lparr>q_pull_reqmeta :=
                         (q_pull_reqmeta st)(i := (q_pull_reqmeta st i)(msg_key msg := kept @ rest))\<rparr>)
          else ALL_RECV_loop i msg kept rest st)"

text \<open>The case \<^verbatim>\<open>ALL_RECV\<close> of the \<^verbatim>\<open>switch\<close> on \<^verbatim>\<open>msg.ops\<close>.\<close>

definition EngineThread_case_ALL_RECV ::
  "nat \<Rightarrow> BytePSEngineMessage \<Rightarrow> server \<Rightarrow> error + server" where
  "EngineThread_case_ALL_RECV i msg st =
     (let st = (if is_push_finished st i (msg_key msg) = None
                then reset_pull_state i (msg_key msg) st else st);
          st = st\<lparr>is_push_finished :=
                    (is_push_finished st)(i := (is_push_finished st i)(msg_key msg \<mapsto> True))\<rparr>
      in ALL_RECV_loop i msg [] (q_pull_reqmeta st i (msg_key msg)) st)"

text \<open>
  The part of the loop body between the two checks and the \<^verbatim>\<open>switch\<close>. For an
  \<^verbatim>\<open>ALL_RECV\<close> message it points \<^verbatim>\<open>updates->merged\<close> of the key to the buffer the pulls
  are to be answered from: the output of the compressor of the key when there is one,
  else the half-precision copy when the message asks for mixed precision, else the
  source buffer of the message. For any other message of a key with a compressor it
  decompresses the source and changes the message (\<^verbatim>\<open>msg.sarray.lens[0]\<close> of an empty
  array is undefined).
\<close>

definition set_merged :: "64 word \<Rightarrow> nat \<Rightarrow> nat \<Rightarrow> server \<Rightarrow> server" where
  "set_merged key data len st =
     st\<lparr>update_buf := (update_buf st)
           (key := (update_buf st key)
              \<lparr>ub_merged := (ub_merged (update_buf st key))\<lparr>ba_tensor := data, ba_len := len\<rparr>\<rparr>)\<rparr>"

definition EngineThread_compress ::
  "BytePSEngineMessage \<Rightarrow> server \<Rightarrow> error + (BytePSEngineMessage \<times> server)" where
  "EngineThread_compress msg st =
     (case compressor_map st (msg_key msg) of
        Some c \<Rightarrow>
          if msg_ops msg = ALL_RECV
          then (let fp16 = fp16_copy st (msg_key msg);
                    (data, size0) = cpr_Compress c (msg_src msg) (msg_len msg)
                                      (dh_dtype (msg_type msg)) (ba_tensor fp16)
                in Inr (msg, set_merged (msg_key msg) data size0 st))
          else (case kv_lens (msg_sarray msg) of
                  [] \<Rightarrow> Inl Undefined
                | compressed_len # _ \<Rightarrow>
                    if \<not> compressed_len \<le> msg_len msg then Inl Fatal
                    else (let (data, size0, dtype) =
                                cpr_Decompress c (msg_src msg) compressed_len (dh_dtype (msg_type msg))
                          in Inr (msg\<lparr>msg_src := data, msg_len := size0,
                                     msg_type := (msg_type msg)\<lparr>dh_dtype := dtype\<rparr>,
                                     msg_mixed_precision := False\<rparr>, st)))
      | None \<Rightarrow>
          if msg_ops msg = ALL_RECV
          then (if msg_mixed_precision msg
                then (let fp16 = fp16_copy st (msg_key msg);
                          st = st\<lparr>trace := trace st @
                                 [ReducerCopyMixed (ba_tensor fp16) (msg_src msg) (ba_len fp16)
                                    (ba_dtype fp16) False]\<rparr>
                      in Inr (msg, set_merged (msg_key msg) (ba_tensor fp16) (ba_len fp16) st))
                else Inr (msg, set_merged (msg_key msg) (msg_src msg) (msg_len msg) st))
          else Inr (msg, st))"

text \<open>
  The body of the loop of \<^verbatim>\<open>BytePSServerEngineThread(i)\<close> for the message \<open>msg\<close> that
  \<^verbatim>\<open>WaitAndPop\<close> has taken from the queue of the thread; the loop is left before the body
  when \<^verbatim>\<open>msg.ops\<close> is \<^verbatim>\<open>TERMINATE\<close>. The debug output is left out, the reducer's
  \<^verbatim>\<open>GetDataType\<close> is kept as the type tag it is given, and its \<^verbatim>\<open>sum\<close> is taken to
  succeed.
\<close>

definition BytePSServerEngineThread_body ::
  "nat \<Rightarrow> BytePSEngineMessage \<Rightarrow> server \<Rightarrow> error + server" where
  "BytePSServerEngineThread_body i msg st =
     (if msg_dst msg = 0 then Inl Fatal
      else if msg_src msg = 0 then Inl Fatal
      else (case EngineThread_compress msg st of
              Inl e \<Rightarrow> Inl e
            | Inr (msg, st) \<Rightarrow>
                (case msg_ops msg of
                   COPY_FIRST \<Rightarrow>
                     Inr (st\<lparr>trace := trace st @
                            [if msg_mixed_precision msg
                             then ReducerCopyMixed (msg_dst msg) (msg_src msg) (msg_len msg)
                                    (dh_dtype (msg_type msg)) True
                             else ReducerCopy (msg_dst msg) (msg_src msg) (msg_len msg)]\<rparr>)
                 | ALL_RECV \<Rightarrow> EngineThread_case_ALL_RECV i msg st
                 | SUM_RECV \<Rightarrow>
                     Inr (st\<lparr>trace := trace st @
                            [if msg_mixed_precision msg
                             then ReducerSumMixed (msg_dst msg) (msg_src msg) (msg_len msg)
                                    (dh_dtype (msg_type msg))
                             else ReducerSum (msg_dst msg) (msg_src msg) (msg_len msg)
                                    (dh_dtype (msg_type msg))]\<rparr>)
                 | TERMINATE \<Rightarrow> Inl Fatal)))"

section \<open>The server: the pull and push handlers\<close>

text \<open>
  \<^verbatim>\<open>BytePSHandlePull\<close>. \<open>tid\<close> is the shard that \<^verbatim>\<open>GetThreadID(key, 0)\<close> returns; that
  function is declared in \<^verbatim>\<open>server.h\<close>.
\<close>

definition BytePSHandlePull ::
  "64 word \<Rightarrow> DataHandleType \<Rightarrow> BytePSArray \<Rightarrow> KVMeta \<Rightarrow> KVPairs \<Rightarrow> nat \<Rightarrow> server
     \<Rightarrow> error + server" where
  "BytePSHandlePull key type stored req_meta req_data tid st =
     (if ba_tensor stored = 0 then Inl Fatal
      else if is_engine_blocking st \<or> \<not> sync_mode st
      then SendPullResponse type key req_meta st
      else
        (let st = (if is_push_finished st tid key = None then reset_pull_state tid key st else st)
         in if is_push_finished st tid key = Some True
               \<and> meta_sender req_meta \<notin> seen_sender st tid key
            then (case SendPullResponse type key req_meta st of
                    Inl e \<Rightarrow> Inl e
                  | Inr st \<Rightarrow>
                      (let st = count_pull tid key (meta_sender req_meta) st
                       in if pull_cnt st tid key = NumWorkers st
                          then Inr (reset_pull_state tid key st)
                          else Inr st))
            else Inr (st\<lparr>q_pull_reqmeta :=
                           (q_pull_reqmeta st)
                             (tid := (q_pull_reqmeta st tid)
                                (key := q_pull_reqmeta st tid key @ [req_meta]))\<rparr>)))"

text \<open>
  \<^verbatim>\<open>BytePSHandlePush\<close>. \<open>tid\<close> is the shard that \<^verbatim>\<open>GetThreadID(key, int(workload))\<close> returns,
  computed once at the start of the call. The reducer's \<^verbatim>\<open>sum\<close> is taken to succeed.
\<close>

definition engine_message ::
  "server \<Rightarrow> DataHandleType \<Rightarrow> 64 word \<Rightarrow> nat \<Rightarrow> nat \<Rightarrow> nat \<Rightarrow> BytePSEngineOperation \<Rightarrow> KVPairs
     \<Rightarrow> KVMeta \<Rightarrow> bool \<Rightarrow> BytePSEngineMessage" where
  "engine_message st type key dst src len ops req_data req_meta mixed_precision =
     \<lparr>msg_id = timestamp st, msg_type = type, msg_key = key, msg_dst = dst, msg_src = src,
      msg_len = len, msg_ops = ops, msg_sarray = req_data, msg_req_meta = req_meta,
      msg_mixed_precision = mixed_precision\<rparr>"

definition queue_push :: "nat \<Rightarrow> BytePSEngineMessage \<Rightarrow> server \<Rightarrow> server" where
  "queue_push tid msg st = st\<lparr>timestamp := timestamp st + 1, trace := trace st @ [QueuePush tid msg]\<rparr>"

definition request_push_back :: "64 word \<Rightarrow> KVMeta \<Rightarrow> server \<Rightarrow> server" where
  "request_push_back key req_meta st =
     st\<lparr>update_buf := (update_buf st)
           (key := (update_buf st key)\<lparr>ub_request := ub_request (update_buf st key) @ [req_meta]\<rparr>)\<rparr>"

definition request_clear :: "64 word \<Rightarrow> server \<Rightarrow> server" where
  "request_clear key st =
     st\<lparr>update_buf := (update_buf st)(key := (update_buf st key)\<lparr>ub_request := []\<rparr>)\<rparr>"

definition BytePSHandlePush ::
  "64 word \<Rightarrow> DataHandleType \<Rightarrow> nat \<Rightarrow> BytePSArray \<Rightarrow> nat \<Rightarrow> KVMeta \<Rightarrow> KVPairs \<Rightarrow> bool \<Rightarrow> nat
     \<Rightarrow> server \<Rightarrow> error + server" where
  "BytePSHandlePush key type len stored recved req_meta req_data mixed_precision tid st =
     (case (if ub_request (update_buf st key) = []
            then (if sync_mode st
                  then (let st = st\<lparr>update_buf := (update_buf st)
                                  (key := (update_buf st key)
                                     \<lparr>ub_merged := (ub_merged (update_buf st key))
                                        \<lparr>ba_tmp_sarray := req_data\<rparr>\<rparr>)\<rparr>;
                            msg = engine_message st type key (ba_tensor stored) recved len
                                    COPY_FIRST req_data req_meta mixed_precision
                        in Inr (queue_push tid msg st))
                  else Inr (st\<lparr>trace := trace st @
                              [ReducerSum (ba_tensor stored) recved len (ba_dtype stored)]\<rparr>))
            else (if \<not> sync_mode st then Inl Fatal
                  else if is_engine_blocking st
                  then Inr (st\<lparr>trace := trace st @
                              [ReducerSum (ba_tensor (ub_merged (update_buf st key))) recved len
                                 (ba_dtype (ub_merged (update_buf st key)))]\<rparr>)
                  else (let msg = engine_message st type key (ba_tensor stored) recved len
                                    SUM_RECV req_data req_meta mixed_precision
                        in Inr (queue_push tid msg st)))) of
        Inl e \<Rightarrow> Inl e
      | Inr st \<Rightarrow>
          (let st = request_push_back key req_meta st;
               st = SendPushResponse key req_meta st
           in if sync_mode st \<and> length (ub_request (update_buf st key)) = NumWorkers st
              then (let st =
                      (if is_engine_blocking st
                       then st\<lparr>trace := trace st @
                              [ReducerCopy (ba_tensor stored)
                                 (ba_tensor (ub_merged (update_buf st key))) len]\<rparr>
                       else (let msg = engine_message st
                                         \<lparr>dh_requestType = dh_requestType type,
                                          dh_dtype = ba_dtype stored\<rparr>
                                         key (ba_tensor stored) (ba_tensor stored) (ba_len stored)
                                         ALL_RECV req_data req_meta mixed_precision;
                                 st = queue_push tid msg st
                             in st\<lparr>trace := trace st @ [QueueClearCounter tid key]\<rparr>))
                    in Inr (request_clear key st))
              else if \<not> sync_mode st then Inr (request_clear key st)
              else Inr st))"

text \<open>
  The state in which \<^verbatim>\<open>byteps_server\<close> starts the handlers: the two modes as
  \<^verbatim>\<open>init_global_env\<close> read them, the number of workers, and every map empty.
\<close>

definition UpdateBuf_empty :: UpdateBuf where
  "UpdateBuf_empty =
     \<lparr>ub_request = [],
      ub_merged = \<lparr>ba_tensor = 0, ba_len = 0, ba_dtype = 0, ba_tmp_sarray = KVPairs_empty\<rparr>\<rparr>"

definition BytePSArray_empty :: BytePSArray where
  "BytePSArray_empty = \<lparr>ba_tensor = 0, ba_len = 0, ba_dtype = 0, ba_tmp_sarray = KVPairs_empty\<rparr>"

definition server_init :: "bool \<Rightarrow> bool \<Rightarrow> nat \<Rightarrow> server" where
  "server_init sync blocking n =
     \<lparr>sync_mode = sync, is_engine_blocking = blocking, NumWorkers = n, timestamp = 0,
      update_buf = (\<lambda>_. UpdateBuf_empty), push_response_map = Map.empty,
      pull_response_map = Map.empty, is_push_finished = (\<lambda>_. Map.empty),
      pull_cnt = (\<lambda>_ _. 0), seen_sender = (\<lambda>_ _. {}), q_pull_reqmeta = (\<lambda>_ _. []),
      compressor_map = Map.empty, fp16_copy = (\<lambda>_. BytePSArray_empty), trace = []\<rparr>"

section \<open>The pull bookkeeping of a key on a shard\<close>

text \<open>
  The invariant of the bookkeeping: the pull counter counts the senders already served
  in the current step, it stays below the number of workers, no sender is marked while
  the pushes of the step have not all arrived, and once they have the merged buffer of
  the key is set.
\<close>

definition pull_inv :: "server \<Rightarrow> nat \<Rightarrow> 64 word \<Rightarrow> bool" where
  "pull_inv st i key \<longleftrightarrow>
     finite (seen_sender st i key)
     \<and> pull_cnt st i key = card (seen_sender st i key)
     \<and> pull_cnt st i key < NumWorkers st
     \<and> (is_push_finished st i key \<noteq> Some True \<longrightarrow> seen_sender st i key = {})
     \<and> (is_push_finished st i key = Some True \<longrightarrow>
          ba_tensor (ub_merged (update_buf st key)) \<noteq> 0)"

text \<open>
  What one operation \<open>st \<rightarrow> st'\<close> did for the pulls of a key: it handed the transport one
  response for each request of \<open>ms\<close>, in order and nothing else, each carrying the
  pointer and the length that \<^verbatim>\<open>updates.merged\<close> of the key holds in \<open>st\<close> and, unchanged,
  in \<open>st'\<close>; the requests come from different
  senders, none of them served before in this step; and either these were the last
  pulls of the step and the bookkeeping is reset, or the senders are added to those
  served and \<^verbatim>\<open>is_push_finished\<close> is \<open>fin\<close>.
\<close>

definition pulls_served :: "server \<Rightarrow> server \<Rightarrow> nat \<Rightarrow> 64 word \<Rightarrow> bool \<Rightarrow> KVMeta list \<Rightarrow> bool" where
  "pulls_served st st' i key fin ms \<longleftrightarrow>
     update_buf st' = update_buf st
     \<and> (\<exists>kvs. length kvs = length ms
        \<and> trace st' = trace st @ map2 Response ms kvs
        \<and> (\<forall>kv\<in>set kvs.
              kv_vals kv = (ba_tensor (ub_merged (update_buf st key)),
                            ba_len (ub_merged (update_buf st key)))
              \<and> kv_lens kv = [ba_len (ub_merged (update_buf st key))]))
     \<and> distinct (map meta_sender ms)
     \<and> (\<forall>m\<in>set ms. meta_sender m \<notin> seen_sender st i key)
     \<and> pull_cnt st i key + length ms \<le> NumWorkers st
     \<and> (if pull_cnt st i key + length ms = NumWorkers st
         then is_push_finished st' i key = Some False
              \<and> pull_cnt st' i key = 0 \<and> seen_sender st' i key = {}
         else is_push_finished st' i key = Some fin
              \<and> pull_cnt st' i key = pull_cnt st i key + length ms
              \<and> seen_sender st' i key = seen_sender st i key \<union> meta_sender ` set ms)"

section \<open>Top-k compressor (\<^verbatim>\<open>impl/topk.h\<close>)\<close>

text \<open>
  Modelled from the spec: \<^verbatim>\<open>topk.h\<close> declares \<^verbatim>\<open>TopkCompressor::CompressImpl\<close> and
  \<^verbatim>\<open>DecompressImpl\<close>, and the file that defines them is not among the sources. The
  specification says that Compress writes the \<open>k\<close> entries of largest absolute value as
  pairs of a 32-bit index and the scalar value, a tie going to the smaller index, in no
  required order, with result length \<open>k \<cdot> (sizeof(u32) + sizeof(scalar))\<close>, and that
  Decompress fills the destination with zeros and then scatters the pairs.

  The entries are ranked by decreasing absolute value and, among equal absolute
  values, by increasing index; the first \<open>k\<close> of the ranking are written.
\<close>

definition topk_rank :: "'a::linordered_idom list \<Rightarrow> (nat \<times> 'a) list" where
  "topk_rank src = sort_key (\<lambda>(i, x). (- \<bar>x\<bar>, i)) (enumerate 0 src)"

definition TopkCompressor_CompressImpl :: "nat \<Rightarrow> 'a::linordered_idom list \<Rightarrow> (32 word \<times> 'a) list" where
  "TopkCompressor_CompressImpl k src = map (\<lambda>(i, x). (word_of_nat i, x)) (take k (topk_rank src))"

definition TopkCompressor_compressed_size :: "(32 word \<times> 'a) list \<Rightarrow> nat \<Rightarrow> nat" where
  "TopkCompressor_compressed_size pairs scalar_size = length pairs * (4 + scalar_size)"

definition TopkCompressor_DecompressImpl :: "nat \<Rightarrow> (32 word \<times> 'a::zero) list \<Rightarrow> 'a list" where
  "TopkCompressor_DecompressImpl n pairs =
     fold (\<lambda>(i, x) dst. dst[unat i := x]) pairs (replicate n 0)"

section \<open>Properties of the hyper-parameter lookup\<close>

text \<open>
  Claim C9. \<open>HyperParamFinder\<close> aborts when the name is absent and the parameter is
  not optional, aborts when the name is present and the predicate rejects the value
  extracted from its string, and otherwise returns its variable \<^verbatim>\<open>value\<close>: the value
  extracted when the name is present and the predicate accepts it, and the
  value-initialised \<^verbatim>\<open>T()\<close>, which nothing has overwritten, when the name is absent and
  the parameter optional.
\<close>

theorem HyperParamFinder_fatal_or_value:
  "(kwargs name = None \<and> optional = False
      \<longrightarrow> HyperParamFinder from_str dflt kwargs name optional check = Inl Fatal)
   \<and> (kwargs name = Some s \<and> \<not> check (from_str s)
      \<longrightarrow> HyperParamFinder from_str dflt kwargs name optional check = Inl Fatal)
   \<and> (kwargs name = Some s \<and> check (from_str s)
      \<longrightarrow> HyperParamFinder from_str dflt kwargs name optional check = Inr (from_str s))
   \<and> (kwargs name = None \<and> optional = True
      \<longrightarrow> HyperParamFinder from_str dflt kwargs name optional check = Inr dflt)"
  by (simp add: HyperParamFinder_def)

theorem HyperParamFinder_fatal_or_value_witness:
  "HyperParamFinder extract_unsigned 0 Map.empty ''seed'' False (\<lambda>x. x \<noteq> 0) = Inl Fatal
   \<and> HyperParamFinder extract_unsigned 0 [''seed'' \<mapsto> ''0''] ''seed'' True (\<lambda>x. x \<noteq> 0)
       = Inl Fatal
   \<and> HyperParamFinder extract_unsigned 0 [''seed'' \<mapsto> ''42''] ''seed'' False (\<lambda>x. x \<noteq> 0)
       = Inr 42
   \<and> HyperParamFinder extract_unsigned 0 Map.empty ''seed'' True (\<lambda>x. x \<noteq> 0) = Inr 0"
  using HyperParamFinder_fatal_or_value
          [where kwargs = "Map.empty" and name = "''seed''" and optional = True
             and from_str = extract_unsigned and dflt = 0 and check = "\<lambda>x. x \<noteq> 0"
             and s = "''0''"]
        HyperParamFinder_fatal_or_value
          [where kwargs = "Map.empty" and name = "''seed''" and optional = False
             and from_str = extract_unsigned and dflt = 0 and check = "\<lambda>x. x \<noteq> 0"
             and s = "''0''"]
        HyperParamFinder_fatal_or_value
          [where kwargs = "[''seed'' \<mapsto> ''0'']" and name = "''seed''" and optional = True
             and from_str = extract_unsigned and dflt = 0 and check = "\<lambda>x. x \<noteq> 0"
             and s = "''0''"]
        HyperParamFinder_fatal_or_value
          [where kwargs = "[''seed'' \<mapsto> ''42'']" and name = "''seed''" and optional = False
             and from_str = extract_unsigned and dflt = 0 and check = "\<lambda>x. x \<noteq> 0"
             and s = "''42''"]
  by (simp add: extract_unsigned_def digit_val_def)

text \<open>
  Claim C10. When the name is absent and the parameter is optional,
  \<open>HyperParamFinder\<close> returns the value-initialised default whatever the predicate is,
  so the predicate has no part in the result. For the \<^verbatim>\<open>seed\<close> of \<^verbatim>\<open>sparse_ef\<close> the
  lookup gives \<open>0\<close> although its predicate rejects \<open>0\<close>, and a compressor that the
  registration then constructs keeps the generator as it was: \<open>set_seed\<close> is not called.
\<close>

theorem HyperParamFinder_optional_absent_default:
  assumes "kwargs name = None"
  shows "HyperParamFinder from_str dflt kwargs name True check = Inr dflt
    \<and> (name = ''seed'' \<longrightarrow>
         HyperParamFinder from_str_u 0 kwargs ''seed'' True (\<lambda>x. x \<noteq> 0) = Inr 0
         \<and> (sparse_ef_register from_str_f from_str_u kwargs size0 dtype cptr rng0 buf0 lr_s
               = Inr c \<longrightarrow> sef_rng c = rng0))"
proof -
  have dflt: "HyperParamFinder from_str dflt kwargs name True check = Inr dflt"
    using assms by (simp add: HyperParamFinder_def)
  have seed: "HyperParamFinder from_str_u 0 kwargs ''seed'' True (\<lambda>x. x \<noteq> 0) = Inr 0"
    if "name = ''seed''"
    using assms that by (simp add: HyperParamFinder_def)
  have reg: "sef_rng c = rng0"
    if "name = ''seed''"
      and "sparse_ef_register from_str_f from_str_u kwargs size0 dtype cptr rng0 buf0 lr_s = Inr c"
    using that(2) seed [OF that(1)]
    by (auto simp: sparse_ef_register_def SparseErrorFeedbackCompressor_new_def Let_def
             split: option.splits sum.splits)
  from dflt seed reg show ?thesis by blast
qed

theorem HyperParamFinder_optional_absent_default_witness:
  "[''compressor_k'' \<mapsto> ''4''] ''seed'' = None
   \<and> HyperParamFinder extract_unsigned 0 [''compressor_k'' \<mapsto> ''4''] ''seed'' True (\<lambda>x. False)
       = Inr 0
   \<and> sparse_ef_register extract_float extract_unsigned [''compressor_k'' \<mapsto> ''4''] 16
        BYTEPS_FLOAT32 (Some ()) \<lparr>rng_a = 7, rng_b = 9\<rparr> 100 (Some (1::real))
       = Inr \<lparr>sef_size = 16, sef_dtype = BYTEPS_FLOAT32, sef_cptr = (), sef_buf = 100,
              sef_k = 4, sef_rng = \<lparr>rng_a = 7, rng_b = 9\<rparr>, sef_selected_idx = [],
              sef_pre_lr = 1, sef_cur_lr = 1\<rparr>
   \<and> sef_rng \<lparr>sef_size = 16, sef_dtype = BYTEPS_FLOAT32, sef_cptr = (),
                sef_buf = 100,
                sef_k = 4, sef_rng = \<lparr>rng_a = 7, rng_b = 9\<rparr>, sef_selected_idx = [],
                sef_pre_lr = 1 :: real, sef_cur_lr = 1\<rparr> = \<lparr>rng_a = 7, rng_b = 9\<rparr>"
proof -
  have absent: "[''compressor_k'' \<mapsto> ''4''] ''seed'' = None"
    by simp
  have reg: "sparse_ef_register extract_float extract_unsigned [''compressor_k'' \<mapsto> ''4''] 16
        BYTEPS_FLOAT32 (Some ()) \<lparr>rng_a = 7, rng_b = 9\<rparr> 100 (Some (1::real))
       = Inr \<lparr>sef_size = 16, sef_dtype = BYTEPS_FLOAT32, sef_cptr = (), sef_buf = 100,
              sef_k = 4, sef_rng = \<lparr>rng_a = 7, rng_b = 9\<rparr>, sef_selected_idx = [],
              sef_pre_lr = 1, sef_cur_lr = 1\<rparr>"
    by (simp add: sparse_ef_register_def HyperParamFinder_def extract_float_def
          extract_unsigned_def digit_val_def sparse_ef_k_def
          SparseErrorFeedbackCompressor_new_def)
  from HyperParamFinder_optional_absent_default
         [where kwargs = "[''compressor_k'' \<mapsto> ''4'']" and name = "''seed''"
            and from_str = extract_unsigned and dflt = 0 and check = "\<lambda>x. False"
            and from_str_u = extract_unsigned and from_str_f = extract_float
            and ?size0.0 = 16 and dtype = BYTEPS_FLOAT32 and cptr = "Some ()"
            and ?rng0.0 = "\<lparr>rng_a = 7, rng_b = 9\<rparr>" and ?buf0.0 = 100
            and lr_s = "Some (1::real)", OF absent]
       absent reg
  show ?thesis by simp
qed

section \<open>Properties of the scaled sums and of the decorators\<close>

text \<open>
  The loops of \<^verbatim>\<open>_sum\<close> and \<^verbatim>\<open>_sparse_sum\<close>, characterised element by element. The
  destination and the source are different buffers and the loop stays inside both.
  The iterations of \<^verbatim>\<open>_sparse_sum\<close> are taken in any order \<open>order\<close> without repetition: an
  iteration adds the entry of the source unless an iteration before it in \<open>order\<close> had
  the same index and has set that entry to zero. In index order these are the earlier
  positions of the list; without repeated indices there are none, whatever the order.
\<close>

lemma sum_loop_result:
  assumes "dst \<noteq> src" "i + n \<le> length (mem dst)" "i + n \<le> length (mem src)"
  shows "sum_loop i n mem dst src alpha =
    Inr (mem(dst := map (\<lambda>j. if i \<le> j \<and> j < i + n then mem dst ! j + alpha * mem src ! j
                              else mem dst ! j) [0..<length (mem dst)]))"
  using assms
proof (induction n arbitrary: i mem)
  case 0
  then show ?case by (auto simp: fun_eq_iff intro!: nth_equalityI)
next
  case (Suc n)
  let ?mem1 = "mem(dst := (mem dst)[i := mem dst ! i + alpha * mem src ! i])"
  have step: "sum_loop i (Suc n) mem dst src alpha = sum_loop (Suc i) n ?mem1 dst src alpha"
    using Suc.prems by simp
  have ih: "sum_loop (Suc i) n ?mem1 dst src alpha =
    Inr (?mem1(dst := map (\<lambda>j. if Suc i \<le> j \<and> j < Suc i + n then ?mem1 dst ! j + alpha * ?mem1 src ! j
                              else ?mem1 dst ! j) [0..<length (?mem1 dst)]))"
    using Suc.prems by (intro Suc.IH) auto
  have d: "map (\<lambda>j. if Suc i \<le> j \<and> j < Suc i + n then ?mem1 dst ! j + alpha * ?mem1 src ! j
                              else ?mem1 dst ! j) [0..<length (?mem1 dst)]
         = map (\<lambda>j. if i \<le> j \<and> j < i + Suc n then mem dst ! j + alpha * mem src ! j
                              else mem dst ! j) [0..<length (mem dst)]"
    using Suc.prems by (intro nth_equalityI) (auto simp: nth_list_update)
  show ?case unfolding step ih d by (simp add: fun_eq_iff)
qed

lemma sum3_loop_alias_result:
  assumes "dst \<noteq> src1" "i + n \<le> length (mem dst)" "i + n \<le> length (mem src1)"
  shows "sum3_loop i n mem dst src1 dst alpha =
    Inr (mem(dst := map (\<lambda>j. if i \<le> j \<and> j < i + n then mem src1 ! j + alpha * mem dst ! j
                              else mem dst ! j) [0..<length (mem dst)]))"
  using assms
proof (induction n arbitrary: i mem)
  case 0
  then show ?case by (auto simp: fun_eq_iff intro!: nth_equalityI)
next
  case (Suc n)
  let ?mem1 = "mem(dst := (mem dst)[i := mem src1 ! i + alpha * mem dst ! i])"
  have step: "sum3_loop i (Suc n) mem dst src1 dst alpha = sum3_loop (Suc i) n ?mem1 dst src1 dst alpha"
    using Suc.prems by simp
  have ih: "sum3_loop (Suc i) n ?mem1 dst src1 dst alpha =
    Inr (?mem1(dst := map (\<lambda>j. if Suc i \<le> j \<and> j < Suc i + n then ?mem1 src1 ! j + alpha * ?mem1 dst ! j
                              else ?mem1 dst ! j) [0..<length (?mem1 dst)]))"
    using Suc.prems by (intro Suc.IH) auto
  have d: "map (\<lambda>j. if Suc i \<le> j \<and> j < Suc i + n then ?mem1 src1 ! j + alpha * ?mem1 dst ! j
                              else ?mem1 dst ! j) [0..<length (?mem1 dst)]
         = map (\<lambda>j. if i \<le> j \<and> j < i + Suc n then mem src1 ! j + alpha * mem dst ! j
                              else mem dst ! j) [0..<length (mem dst)]"
  proof (rule nth_equalityI)
    show "length (map (\<lambda>j. if Suc i \<le> j \<and> j < Suc i + n then ?mem1 src1 ! j + alpha * ?mem1 dst ! j
                              else ?mem1 dst ! j) [0..<length (?mem1 dst)])
         = length (map (\<lambda>j. if i \<le> j \<and> j < i + Suc n then mem src1 ! j + alpha * mem dst ! j
                              else mem dst ! j) [0..<length (mem dst)])"
      by simp
  next
    fix j
    assume "j < length (map (\<lambda>j. if Suc i \<le> j \<and> j < Suc i + n then ?mem1 src1 ! j + alpha * ?mem1 dst ! j
                              else ?mem1 dst ! j) [0..<length (?mem1 dst)])"
    then have j: "j < length (mem dst)" by simp
    have m1: "?mem1 dst = (mem dst)[i := mem src1 ! i + alpha * mem dst ! i]" "?mem1 src1 = mem src1"
      using Suc.prems(1) by simp_all
    show "map (\<lambda>j. if Suc i \<le> j \<and> j < Suc i + n then ?mem1 src1 ! j + alpha * ?mem1 dst ! j
                              else ?mem1 dst ! j) [0..<length (?mem1 dst)] ! j
         = map (\<lambda>j. if i \<le> j \<and> j < i + Suc n then mem src1 ! j + alpha * mem dst ! j
                              else mem dst ! j) [0..<length (mem dst)] ! j"
      unfolding m1 using j Suc.prems(2) by (cases "j = i") (simp_all add: nth_list_update)
  qed
  show ?case unfolding step ih d by (simp add: fun_eq_iff)
qed






lemma sum_tensor_sizeof:
  "getDataTypeLength dt = Inr sz \<Longrightarrow> sum_tensor mem dst src len dt alpha = sum_T sz mem dst src len alpha"
  by (cases dt) auto

lemma sum3_tensor_sizeof:
  "getDataTypeLength dt = Inr sz \<Longrightarrow>
   sum3_tensor mem dst src1 src2 len dt alpha = sum3_T sz mem dst src1 src2 len alpha"
  by (cases dt) auto

lemma sum_tensor_result:
  assumes "getDataTypeLength dt = Inr sz" "dst \<noteq> src"
    and "len div sz \<le> length (mem dst)" "len div sz \<le> length (mem src)"
  shows "sum_tensor mem dst src len dt alpha =
    Inr (mem(dst := map (\<lambda>j. if j < len div sz then mem dst ! j + alpha * mem src ! j
                              else mem dst ! j) [0..<length (mem dst)]))"
  using sum_loop_result [of dst src 0 "len div sz" mem alpha] assms
  by (simp add: sum_tensor_sizeof sum_T_def)

lemma sum3_tensor_alias_result:
  assumes "getDataTypeLength dt = Inr sz" "dst \<noteq> src1"
    and "len div sz \<le> length (mem dst)" "len div sz \<le> length (mem src1)"
  shows "sum3_tensor mem dst src1 dst len dt alpha =
    Inr (mem(dst := map (\<lambda>j. if j < len div sz then mem src1 ! j + alpha * mem dst ! j
                              else mem dst ! j) [0..<length (mem dst)]))"
  using sum3_loop_alias_result [of dst src1 0 "len div sz" mem alpha] assms
  by (simp add: sum3_tensor_sizeof sum3_T_def)

text \<open>
  Claim C7. \<open>UpdateGradient\<close> of the corrected error feedback takes the learning rate
  \<open>lr\<close> read from the mapping of \<^verbatim>\<open>lr.s\<close> as the current one, replaces each of the
  first \<^verbatim>\<open>size / sizeof(T)\<close> entries \<open>g[j]\<close> of the gradient in place by
  \<open>g[j] + (pre_lr / lr) * error[j]\<close>, and then stores \<open>lr\<close> as the previous learning
  rate. The type tag is one of the seven that \<^verbatim>\<open>sum\<close> knows, the gradient and the error
  buffer are different buffers, and both hold that many entries. The instance below
  computes the example of the specification: previous rate \<open>0.1\<close>, rate read \<open>0.2\<close>,
  error \<open>[0.4, 0.4]\<close>, gradient \<open>[1, 1]\<close> give \<open>[1.2, 1.2]\<close> and previous rate \<open>0.2\<close>.
\<close>

theorem CorrectedErrorFeedback_UpdateGradient_result:
  assumes "getDataTypeLength (t_dtype grad) = Inr sz"
    and "t_data grad \<noteq> cef_buf c"
    and "t_size grad div sz \<le> length (mem (t_data grad))"
    and "t_size grad div sz \<le> length (mem (cef_buf c))"
  shows "CorrectedErrorFeedbackCompressor_UpdateGradient c lr mem grad =
    Inr (c\<lparr>cef_pre_lr := lr, cef_cur_lr := lr\<rparr>,
         mem(t_data grad :=
           map (\<lambda>j. if j < t_size grad div sz
                     then mem (t_data grad) ! j + (cef_pre_lr c / lr) * mem (cef_buf c) ! j
                     else mem (t_data grad) ! j) [0..<length (mem (t_data grad))]))"
  using sum_tensor_result [OF assms, where alpha = "cef_pre_lr c / lr"]
  by (simp add: CorrectedErrorFeedbackCompressor_UpdateGradient_def)

theorem CorrectedErrorFeedback_UpdateGradient_result_witness:
  "getDataTypeLength (t_dtype \<lparr>t_data = 1, t_size = 8, t_dtype = BYTEPS_FLOAT32\<rparr>) = Inr 4
   \<and> CorrectedErrorFeedbackCompressor_UpdateGradient
        \<lparr>cef_buf = 2, cef_pre_lr = 0.1, cef_cur_lr = 0.1\<rparr> 0.2
        ((\<lambda>_. [])(1 := [1.0, 1.0 :: real], 2 := [0.4, 0.4]))
        \<lparr>t_data = 1, t_size = 8, t_dtype = BYTEPS_FLOAT32\<rparr>
     = Inr (\<lparr>cef_buf = 2, cef_pre_lr = 0.2, cef_cur_lr = 0.2\<rparr>,
            (\<lambda>_. [])(1 := [1.2, 1.2], 2 := [0.4, 0.4]))"
  using CorrectedErrorFeedback_UpdateGradient_result
    [where grad = "\<lparr>t_data = 1, t_size = 8, t_dtype = BYTEPS_FLOAT32\<rparr>" and sz = 4
       and c = "\<lparr>cef_buf = 2, cef_pre_lr = 0.1 :: real, cef_cur_lr = 0.1\<rparr>"
       and mem = "(\<lambda>_. [])(1 := [1.0, 1.0 :: real], 2 := [0.4, 0.4])" and lr = "0.2"]
  by (simp add: fun_upd_twist upt_rec)

text \<open>
  Claim C6. \<open>Compress\<close> of the Nesterov momentum compressor runs \<open>UpdateMom\<close>, which
  replaces each of the first \<^verbatim>\<open>size / sizeof(T)\<close> entries of the momentum buffer by
  \<open>g[j] + mu * m[j]\<close>, then \<open>UpdateGradient\<close>, which replaces each such entry of the
  gradient in place by \<open>g[j] + mu * m'[j]\<close> for the new momentum \<open>m'\<close>, and then calls
  \<open>Compress\<close> of the inner compressor on the memory so updated with the same gradient
  and output tensors. \<open>Decompress\<close> hands its arguments to the inner compressor as they
  are.
\<close>

theorem Nesterov_Compress_order:
  assumes "getDataTypeLength (t_dtype grad) = Inr sz"
    and "t_data grad \<noteq> nm_buf c"
    and "t_size grad div sz \<le> length (mem (t_data grad))"
    and "t_size grad div sz \<le> length (mem (nm_buf c))"
  shows "NesterovMomentumCompressor_Compress c cptr_Compress mem grad out =
    (let n = t_size grad div sz; g = mem (t_data grad); m = mem (nm_buf c);
         m' = map (\<lambda>j. if j < n then g ! j + nm_mu c * m ! j else m ! j) [0..<length m];
         g' = map (\<lambda>j. if j < n then g ! j + nm_mu c * m' ! j else g ! j) [0..<length g]
     in Inr (cptr_Compress (mem(nm_buf c := m', t_data grad := g')) grad out))
    \<and> NesterovMomentumCompressor_UpdateMom c mem grad =
        Inr (mem(nm_buf c := map (\<lambda>j. if j < t_size grad div sz
                                        then mem (t_data grad) ! j + nm_mu c * mem (nm_buf c) ! j
                                        else mem (nm_buf c) ! j) [0..<length (mem (nm_buf c))]))
    \<and> NesterovMomentumCompressor_UpdateGradient c mem grad =
        Inr (mem(t_data grad := map (\<lambda>j. if j < t_size grad div sz
                                        then mem (t_data grad) ! j + nm_mu c * mem (nm_buf c) ! j
                                        else mem (t_data grad) ! j) [0..<length (mem (t_data grad))]))
    \<and> Momentum_Decompress cptr_Decompress mem compressed out'
        = cptr_Decompress mem compressed out'"
proof -
  let ?n = "t_size grad div sz"
  let ?m' = "map (\<lambda>j. if j < ?n then mem (t_data grad) ! j + nm_mu c * mem (nm_buf c) ! j
                       else mem (nm_buf c) ! j) [0..<length (mem (nm_buf c))]"
  define mem1 where "mem1 = mem(nm_buf c := ?m')"
  have mom: "NesterovMomentumCompressor_UpdateMom c mem grad = Inr mem1"
    unfolding NesterovMomentumCompressor_UpdateMom_def mem1_def
    using assms by (intro sum3_tensor_alias_result) auto
  have m1: "mem1 (t_data grad) = mem (t_data grad)" "mem1 (nm_buf c) = ?m'"
    using assms(2) by (simp_all add: mem1_def)
  have grd: "NesterovMomentumCompressor_UpdateGradient c mem1 grad =
    Inr (mem1(t_data grad := map (\<lambda>j. if j < ?n then mem1 (t_data grad) ! j + nm_mu c * mem1 (nm_buf c) ! j
                              else mem1 (t_data grad) ! j) [0..<length (mem1 (t_data grad))]))"
    unfolding NesterovMomentumCompressor_UpdateGradient_def
    using assms by (intro sum_tensor_result) (simp_all add: m1)
  have grd0: "NesterovMomentumCompressor_UpdateGradient c mem grad =
        Inr (mem(t_data grad := map (\<lambda>j. if j < ?n
                                        then mem (t_data grad) ! j + nm_mu c * mem (nm_buf c) ! j
                                        else mem (t_data grad) ! j) [0..<length (mem (t_data grad))]))"
    unfolding NesterovMomentumCompressor_UpdateGradient_def
    using assms by (intro sum_tensor_result) simp_all
  have "NesterovMomentumCompressor_Compress c cptr_Compress mem grad out =
    Inr (cptr_Compress (mem1(t_data grad := map (\<lambda>j. if j < ?n then mem1 (t_data grad) ! j + nm_mu c * mem1 (nm_buf c) ! j
                              else mem1 (t_data grad) ! j) [0..<length (mem1 (t_data grad))])) grad out)"
    by (simp add: NesterovMomentumCompressor_Compress_def Momentum_Compress_def mom grd)
  then have cmp: "NesterovMomentumCompressor_Compress c cptr_Compress mem grad out =
    (let n = t_size grad div sz; g = mem (t_data grad); m = mem (nm_buf c);
         m' = map (\<lambda>j. if j < n then g ! j + nm_mu c * m ! j else m ! j) [0..<length m];
         g' = map (\<lambda>j. if j < n then g ! j + nm_mu c * m' ! j else g ! j) [0..<length g]
     in Inr (cptr_Compress (mem(nm_buf c := m', t_data grad := g')) grad out))"
    unfolding m1 by (simp add: Let_def mem1_def)
  show ?thesis
    using cmp mom grd0 by (simp add: mem1_def Momentum_Decompress_def)
qed


theorem Nesterov_Compress_order_witness:
  "getDataTypeLength (t_dtype \<lparr>t_data = 1, t_size = 8, t_dtype = BYTEPS_FLOAT32\<rparr>) = Inr 4
   \<and> NesterovMomentumCompressor_Compress \<lparr>nm_buf = 2, nm_mu = 2 :: real\<rparr>
        (\<lambda>mem g out. (mem (t_data g), mem 2))
        ((\<lambda>_. [])(1 := [1, 2], 2 := [10, 20]))
        \<lparr>t_data = 1, t_size = 8, t_dtype = BYTEPS_FLOAT32\<rparr>
        \<lparr>t_data = 3, t_size = 0, t_dtype = BYTEPS_FLOAT32\<rparr>
     = Inr ([43, 86], [21, 42])"
  using Nesterov_Compress_order
    [where grad = "\<lparr>t_data = 1, t_size = 8, t_dtype = BYTEPS_FLOAT32\<rparr>" and sz = 4
       and c = "\<lparr>nm_buf = 2, nm_mu = 2 :: real\<rparr>"
       and mem = "(\<lambda>_. [])(1 := [1, 2], 2 := [10, 20])"
       and cptr_Compress = "\<lambda>mem g out. (mem (t_data g), mem 2)"
       and out = "\<lparr>t_data = 3, t_size = 0, t_dtype = BYTEPS_FLOAT32\<rparr>"
       and cptr_Decompress = "\<lambda>mem c out. mem (t_data c)"
       and compressed = "\<lparr>t_data = 1, t_size = 8, t_dtype = BYTEPS_FLOAT32\<rparr>"
       and out' = "\<lparr>t_data = 3, t_size = 0, t_dtype = BYTEPS_FLOAT32\<rparr>"]
  by (simp add: upt_rec Let_def)







lemma xor_push_bit_inj:
  fixes t u :: "'a::len word"
  assumes "0 < n" "t XOR push_bit n t = u XOR push_bit n u"
  shows "t = u"
proof -
  define d where "d = t XOR u"
  have "d XOR push_bit n d = (t XOR push_bit n t) XOR (u XOR push_bit n u)"
    by (simp add: d_def push_bit_xor ac_simps)
  then have eq: "d = push_bit n d"
    using assms(2) by (simp add: xor_self_eq) (metis bit.xor_self xor.assoc xor.right_neutral xor.commute)
  have "\<not> bit d k" for k
  proof (induction k rule: less_induct)
    case (less k)
    show ?case
    proof
      assume "bit d k"
      then have "bit (push_bit n d) k" using eq by simp
      then have "n \<le> k" "bit d (k - n)"
        by (simp_all add: bit_push_bit_iff)
      moreover have "k - n < k" using assms(1) \<open>n \<le> k\<close> by simp
      ultimately show False using less.IH by blast
    qed
  qed
  then have "d = 0" by (simp add: bit_eq_iff)
  moreover have "t = d XOR u"
    by (simp add: d_def xor.assoc)
  ultimately show ?thesis
    by simp
qed

lemma xor_drop_bit_inj:
  fixes t u :: "'a::len word"
  assumes "0 < n" "t XOR drop_bit n t = u XOR drop_bit n u"
  shows "t = u"
proof -
  define d where "d = t XOR u"
  have "d XOR drop_bit n d = (t XOR drop_bit n t) XOR (u XOR drop_bit n u)"
    by (simp add: d_def drop_bit_xor ac_simps)
  then have "d XOR drop_bit n d = 0"
    using assms(2) by simp
  then have eq: "d = drop_bit n d"
    by (metis bit.xor_self xor.assoc xor.right_neutral xor.commute)
  have "\<not> bit d k" for k
  proof (induction "LENGTH('a) - k" arbitrary: k rule: less_induct)
    case less
    show ?case
    proof
      assume b: "bit d k"
      then have k: "k < LENGTH('a)" by (rule bit_imp_le_length)
      from b have "bit (drop_bit n d) k" using eq by simp
      then have "bit d (n + k)"
        by (simp add: bit_drop_bit_eq)
      moreover have "LENGTH('a) - (n + k) < LENGTH('a) - k"
        using assms(1) k by simp
      ultimately show False using less by blast
    qed
  qed
  then have "d = 0" by (simp add: bit_eq_iff)
  moreover have "t = d XOR u"
    by (simp add: d_def xor.assoc)
  ultimately show ?thesis
    by simp
qed

lemma xorshift128p_output_bij:
  "bij (\<lambda>a. fst (xorshift128p \<lparr>rng_a = a, rng_b = b\<rparr>))"
proof -
  define g :: "64 word \<Rightarrow> 64 word" where "g t = t XOR push_bit 23 t" for t
  define h :: "64 word \<Rightarrow> 64 word" where "h t = t XOR drop_bit 17 t" for t
  have out: "fst (xorshift128p \<lparr>rng_a = a, rng_b = b\<rparr>) = (h (g a) XOR (b XOR drop_bit 26 b)) + b" for a
    unfolding xorshift128p_def Let_def g_def h_def by (simp only: xorshift128p_state.simps fst_conv)
  have "inj (\<lambda>a. fst (xorshift128p \<lparr>rng_a = a, rng_b = b\<rparr>))"
  proof (rule injI)
    fix t u
    assume "fst (xorshift128p \<lparr>rng_a = t, rng_b = b\<rparr>) = fst (xorshift128p \<lparr>rng_a = u, rng_b = b\<rparr>)"
    then have "h (g t) XOR (b XOR drop_bit 26 b) = h (g u) XOR (b XOR drop_bit 26 b)"
      unfolding out by simp
    then have "(h (g t) XOR (b XOR drop_bit 26 b)) XOR (b XOR drop_bit 26 b)
             = (h (g u) XOR (b XOR drop_bit 26 b)) XOR (b XOR drop_bit 26 b)"
      by (rule arg_cong)
    then have "h (g t) = h (g u)"
      by (simp only: xor.assoc bit.xor_self xor.right_neutral)
    then have "g t = g u"
      unfolding h_def by (rule xor_drop_bit_inj [of 17, rotated]) simp
    then show "t = u"
      unfolding g_def by (rule xor_push_bit_inj [of 23, rotated]) simp
  qed
  moreover from this have "surj (\<lambda>a. fst (xorshift128p \<lparr>rng_a = a, rng_b = b\<rparr>))"
    by (rule finite_UNIV_inj_surj [OF finite])
  ultimately show ?thesis
    by (simp add: bij_def)
qed







section \<open>Properties of the bit stream and of the Elias delta code\<close>

text \<open>
  The reader on word types of at most 32 bits. The test \<^verbatim>\<open>_accum & (1 << s)\<close> then reads
  bit \<open>s\<close> of the accumulator, also for \<open>s = 31\<close> where the mask is negative, and a reader
  that has consumed \<open>k\<close> bits returns bit \<open>k\<close> of the stream: bit
  \<open>LENGTH('a) - 1 - k mod LENGTH('a)\<close> of word \<open>k div LENGTH('a)\<close>.
\<close>

lemma Get_mask_test:
  fixes a :: "'a::len word"
  assumes "LENGTH('a) \<le> 32" "s < LENGTH('a)"
  shows "(uint a AND sint (2 ^ s :: 32 word) \<noteq> 0) = bit a s"
proof -
  have m: "bit (sint (2 ^ s :: 32 word)) n \<longleftrightarrow> n = s \<or> (s = 31 \<and> 32 \<le> n)" for n
    using assms by (auto simp: bit_sint_iff bit_exp_iff)
  have "(uint a AND sint (2 ^ s :: 32 word) \<noteq> 0)
      \<longleftrightarrow> (\<exists>n. bit (uint a) n \<and> bit (sint (2 ^ s :: 32 word)) n)"
    by (auto simp: bit_eq_iff bit_and_iff)
  also have "\<dots> \<longleftrightarrow> bit a s"
    unfolding m using assms by (auto simp: bit_uint_iff dest: bit_imp_le_length)
  finally show ?thesis .
qed

lemma Get_result:
  fixes r :: "'a::len BitReader"
  assumes "LENGTH('a) \<le> 32" "br_used_bits r \<le> LENGTH('a)"
  shows "Get r =
     (if br_used_bits r = 0
      then Inr (bit (br_dptr r (br_blocks r)) (LENGTH('a) - 1),
                r\<lparr>br_accum := br_dptr r (br_blocks r), br_blocks := br_blocks r + 1,
                  br_used_bits := LENGTH('a) - 1\<rparr>)
      else Inr (bit (br_accum r) (br_used_bits r - 1), r\<lparr>br_used_bits := br_used_bits r - 1\<rparr>))"
  using assms by (auto simp add: Get_def Let_def Get_mask_test)

lemma Get_step:
  fixes r :: "'a::len BitReader"
  assumes len: "LENGTH('a) \<le> 32"
    and used: "br_used_bits r < LENGTH('a)"
    and loaded: "0 < br_used_bits r \<longrightarrow> 0 < br_blocks r \<and> br_accum r = br_dptr r (br_blocks r - 1)"
  shows "\<exists>r'. (Get r = Inr (bit (br_dptr r ((br_blocks r * LENGTH('a) - br_used_bits r) div LENGTH('a)))
                           (LENGTH('a) - 1 - (br_blocks r * LENGTH('a) - br_used_bits r) mod LENGTH('a)), r')
            \<and> br_dptr r' = br_dptr r) \<and> br_used_bits r' < LENGTH('a)
            \<and> (0 < br_used_bits r' \<longrightarrow> 0 < br_blocks r' \<and> br_accum r' = br_dptr r' (br_blocks r' - 1))
            \<and> br_blocks r' * LENGTH('a) - br_used_bits r' = Suc (br_blocks r * LENGTH('a) - br_used_bits r)"
proof (cases "br_used_bits r = 0")
  case True
  have "Get r = Inr (bit (br_dptr r (br_blocks r)) (LENGTH('a) - 1),
                     r\<lparr>br_accum := br_dptr r (br_blocks r), br_blocks := br_blocks r + 1,
                       br_used_bits := LENGTH('a) - 1\<rparr>)"
    using True len by (simp add: Get_result)
  moreover have "Suc (br_blocks r) * LENGTH('a) - (LENGTH('a) - 1) = Suc (br_blocks r * LENGTH('a))"
    by (cases "LENGTH('a)") simp_all
  ultimately show ?thesis
    using True by simp
next
  case False
  then obtain b where b: "br_blocks r = Suc b"
    using loaded by (cases "br_blocks r") auto
  have acc: "br_accum r = br_dptr r b"
    using False loaded b by simp
  have k: "br_blocks r * LENGTH('a) - br_used_bits r = b * LENGTH('a) + (LENGTH('a) - br_used_bits r)"
    using used by (simp add: b)
  have dm: "(br_blocks r * LENGTH('a) - br_used_bits r) div LENGTH('a) = b"
    "(br_blocks r * LENGTH('a) - br_used_bits r) mod LENGTH('a) = LENGTH('a) - br_used_bits r"
    unfolding k using False by simp_all
  have g: "Get r = Inr (bit (br_dptr r b) (br_used_bits r - 1), r\<lparr>br_used_bits := br_used_bits r - 1\<rparr>)"
    using False used len by (simp add: Get_result acc)
  have s: "LENGTH('a) - 1 - (LENGTH('a) - br_used_bits r) = br_used_bits r - 1"
    using used by simp
  have k': "Suc b * LENGTH('a) - (br_used_bits r - 1) = Suc (Suc b * LENGTH('a) - br_used_bits r)"
    using False used by simp
  show ?thesis
    unfolding dm s g using False used acc k' by (intro exI [of _ "r\<lparr>br_used_bits := br_used_bits r - 1\<rparr>"]) (simp add: b)
qed

lemma get_bits_reads:
  fixes r :: "'a::len BitReader"
  assumes len: "LENGTH('a) \<le> 32"
    and used: "br_used_bits r < LENGTH('a)"
    and loaded: "0 < br_used_bits r \<longrightarrow> 0 < br_blocks r \<and> br_accum r = br_dptr r (br_blocks r - 1)"
  shows "\<exists>r'. get_bits n r =
           Inr (map (\<lambda>i. bit (br_dptr r (i div LENGTH('a))) (LENGTH('a) - 1 - i mod LENGTH('a)))
                  [br_blocks r * LENGTH('a) - br_used_bits r
                     ..< br_blocks r * LENGTH('a) - br_used_bits r + n], r')"
  using used loaded
proof (induction n arbitrary: r)
  case 0
  show ?case by simp
next
  case (Suc n)
  let ?k = "br_blocks r * LENGTH('a) - br_used_bits r"
  from Get_step [OF len Suc.prems]
  obtain r1 where g: "Get r = Inr (bit (br_dptr r (?k div LENGTH('a))) (LENGTH('a) - 1 - ?k mod LENGTH('a)), r1)
       \<and> br_dptr r1 = br_dptr r"
    and r1: "br_used_bits r1 < LENGTH('a)"
      "0 < br_used_bits r1 \<longrightarrow> 0 < br_blocks r1 \<and> br_accum r1 = br_dptr r1 (br_blocks r1 - 1)"
      "br_blocks r1 * LENGTH('a) - br_used_bits r1 = Suc ?k"
    by (elim exE conjE) simp
  from Suc.IH [OF r1(1,2)]
  obtain r' where ih: "get_bits n r1 =
           Inr (map (\<lambda>i. bit (br_dptr r1 (i div LENGTH('a))) (LENGTH('a) - 1 - i mod LENGTH('a)))
                  [br_blocks r1 * LENGTH('a) - br_used_bits r1
                     ..< br_blocks r1 * LENGTH('a) - br_used_bits r1 + n], r')" ..
  have u: "[?k ..< ?k + Suc n] = ?k # [Suc ?k ..< Suc ?k + n]"
    by (simp add: upt_conv_Cons)
  show ?case
    unfolding u using g ih by (simp add: r1(3))
qed

text \<open>
  The writer, for every word type. The accumulator is never reset, the bits of a
  finished word are shifted out of it one by one; after the bits \<open>bs\<close> it holds the last
  \<open>LENGTH('a)\<close> of them, and word \<open>j\<close> of the array holds bits \<open>j * LENGTH('a)\<close> to
  \<open>(j + 1) * LENGTH('a) - 1\<close>, first bit highest.
\<close>

lemma Put_accum_bit:
  fixes a :: "'a::len word"
  shows "bit (fold (\<lambda>b a. push_bit 1 a OR (if b then 1 else 0)) bs a) k
     \<longleftrightarrow> k < LENGTH('a) \<and> (if k < length bs then rev bs ! k else bit a (k - length bs))"
proof (induction bs arbitrary: a)
  case Nil
  show ?case by (auto dest: bit_imp_le_length)
next
  case (Cons b bs)
  have step: "bit (push_bit 1 a OR (if b then 1 else 0)) m \<longleftrightarrow>
      m < LENGTH('a) \<and> (if m = 0 then b else bit a (m - 1))" for m
    unfolding bit_or_iff bit_push_bit_iff
    by (cases m) (auto simp: bit_1_iff dest: bit_imp_le_length)
  have f: "fold (\<lambda>b a. push_bit 1 a OR (if b then 1 else 0)) (b # bs) a
         = fold (\<lambda>b a. push_bit 1 a OR (if b then 1 else 0)) bs (push_bit 1 a OR (if b then 1 else 0))"
    by (simp only: fold_simps)
  show ?case
    unfolding f Cons.IH step by (auto simp: nth_append)
qed

lemma put_bits_state:
  fixes d :: "nat \<Rightarrow> 'a::len word"
  shows "put_bits bs (BitWriter_new d) =
    \<lparr>bw_dptr = (\<lambda>j. if j < length bs div LENGTH('a)
                     then fold (\<lambda>b a. push_bit 1 a OR (if b then 1 else 0)) (take (Suc j * LENGTH('a)) bs) 0
                     else d j),
     bw_accum = fold (\<lambda>b a. push_bit 1 a OR (if b then 1 else 0)) bs 0,
     bw_used_bits = length bs mod LENGTH('a),
     bw_blocks = length bs div LENGTH('a)\<rparr>"
proof (induction bs rule: rev_induct)
  case Nil
  show ?case by (simp add: put_bits_def BitWriter_new_def)
next
  case (snoc b bs)
  let ?L = "LENGTH('a)"
  have p: "put_bits (bs @ [b]) (BitWriter_new d) = Put b (put_bits bs (BitWriter_new d))"
    by (simp add: put_bits_def)
  have t: "?L + j * ?L - length bs = 0" if "j < length bs div ?L" for j
  proof -
    have "Suc j * ?L \<le> (length bs div ?L) * ?L"
      using that by (intro mult_le_mono1) simp
    also have "\<dots> \<le> length bs" by simp
    finally show ?thesis by simp
  qed
  show ?case
  proof (cases "Suc (length bs mod ?L) = ?L")
    case True
    have dm: "Suc (length bs) div ?L = Suc (length bs div ?L)" "Suc (length bs) mod ?L = 0"
      using True by (simp_all add: div_Suc mod_Suc)
    have "Suc (length bs div ?L) * ?L = Suc (length bs)"
      using dm(2) by (metis dm(1) mod_0_imp_dvd dvd_div_mult_self)
    then have full: "?L + (length bs div ?L) * ?L - length bs = Suc 0"
      "take (?L + (length bs div ?L) * ?L) bs = bs"
      by simp_all
    show ?thesis
      unfolding p snoc.IH using True
      by (auto simp: Put_def Let_def dm fun_eq_iff t full less_Suc_eq)
  next
    case False
    have dm: "Suc (length bs) div ?L = length bs div ?L" "Suc (length bs) mod ?L = Suc (length bs mod ?L)"
      using False by (simp_all add: div_Suc mod_Suc)
    show ?thesis
      unfolding p snoc.IH using False
      by (auto simp: Put_def Let_def dm fun_eq_iff t)
  qed
qed

text \<open>
  After \<open>Flush\<close> bit \<open>i\<close> of the stream is \<open>bs ! i\<close>, the writer has counted \<open>length bs\<close>
  bits, and a reader of a word type of at most 32 bits returns \<open>bs\<close>.
\<close>

lemma flushed_bit:
  fixes d :: "nat \<Rightarrow> 'a::len word"
  assumes "i < length bs"
  shows "bit (bw_dptr (Flush (put_bits bs (BitWriter_new d))) (i div LENGTH('a)))
           (LENGTH('a) - 1 - i mod LENGTH('a)) = bs ! i"
proof -
  let ?L = "LENGTH('a)"
  let ?n = "length bs"
  let ?H = "fold (\<lambda>b (a :: 'a word). push_bit 1 a OR (if b then 1 else 0))"
  have p: "i mod ?L < ?L" by simp
  have i: "i = i div ?L * ?L + i mod ?L" by simp
  have n: "?n = ?n div ?L * ?L + ?n mod ?L" by simp
  have le: "i div ?L \<le> ?n div ?L"
    using assms by (simp add: div_le_mono)
  show ?thesis
  proof (cases "i div ?L < ?n div ?L")
    case True
    let ?m = "Suc (i div ?L) * ?L"
    have "?m \<le> (?n div ?L) * ?L"
      using True by (intro mult_le_mono1) simp
    also have "\<dots> \<le> ?n" by simp
    finally have m: "?m \<le> ?n" .
    have lt: "length (take ?m bs) = ?m"
      using m by simp
    have "r < l \<Longrightarrow> l - 1 - r < Suc q * l \<and> Suc q * l - Suc (l - 1 - r) = q * l + r
        \<and> q * l + r < Suc q * l" for l q r :: nat
      by auto
    from this [OF p, of "i div ?L"]
    have k: "?L - 1 - i mod ?L < ?m" "?m - Suc (?L - 1 - i mod ?L) = i" "i < ?m"
      by (simp_all only: div_mult_mod_eq)
    have D: "bw_dptr (Flush (put_bits bs (BitWriter_new d))) (i div ?L) = ?H (take ?m bs) 0"
      using True by (simp add: put_bits_state Flush_def Let_def)
    have "bit (?H (take ?m bs) 0) (?L - 1 - i mod ?L) = rev (take ?m bs) ! (?L - 1 - i mod ?L)"
      unfolding Put_accum_bit lt using k(1) by simp
    also have "\<dots> = take ?m bs ! (?m - Suc (?L - 1 - i mod ?L))"
      using k(1) lt by (simp only: rev_nth)
    also have "\<dots> = bs ! i"
      unfolding k(2) using k(3) by simp
    finally show ?thesis
      unfolding D .
  next
    case False
    then have q: "i div ?L = ?n div ?L"
      using le by simp
    have pl: "i mod ?L < ?n mod ?L"
      using assms i n q by (metis add_less_cancel_left)
    have D: "bw_dptr (Flush (put_bits bs (BitWriter_new d))) (i div ?L)
        = push_bit (?L - ?n mod ?L) (?H bs 0)"
      using pl q by (simp add: put_bits_state Flush_def Let_def)
    let ?k = "?n mod ?L - 1 - i mod ?L"
    have "r < s \<Longrightarrow> s < l \<Longrightarrow>
        l - 1 - r - (l - s) = s - 1 - r \<and> l - s \<le> l - 1 - r \<and> s - 1 - r < q * l + s
        \<and> s - 1 - r < l \<and> q * l + s - Suc (s - 1 - r) = q * l + r" for l q r s :: nat
      by auto
    from this [OF pl, of ?L "?n div ?L"]
    have k: "?L - 1 - i mod ?L - (?L - ?n mod ?L) = ?k" "?L - ?n mod ?L \<le> ?L - 1 - i mod ?L"
      "?k < ?n" "?k < ?L" "?n - Suc ?k = i"
      using div_mult_mod_eq [of i ?L] unfolding q by (simp_all only: div_mult_mod_eq mod_less_divisor len_gt_0)
    have "bit (push_bit (?L - ?n mod ?L) (?H bs 0)) (?L - 1 - i mod ?L) = bit (?H bs 0) ?k"
      unfolding bit_push_bit_iff k(1) using k(2) p by simp
    also have "\<dots> = rev bs ! ?k"
      unfolding Put_accum_bit using k(3,4) by simp
    also have "\<dots> = bs ! (?n - Suc ?k)"
      using k(3) by (simp only: rev_nth)
    finally show ?thesis
      unfolding D k(5) .
  qed
qed

lemma BitWriter_bits_count:
  "bits (Flush (put_bits bs (BitWriter_new d))) = length bs"
proof -
  have "bw_blocks (Flush w) = bw_blocks w" "bw_used_bits (Flush w) = bw_used_bits w"
    for w :: "'a::len BitWriter"
    by (simp_all add: Flush_def Let_def)
  then show ?thesis
    by (simp add: bits_def put_bits_state)
qed

lemma BitReader_round_trip_upto_32:
  fixes d :: "nat \<Rightarrow> 'a::len word"
  assumes "LENGTH('a) \<le> 32"
  shows "\<exists>r. get_bits (length bs) (BitReader_new (bw_dptr (Flush (put_bits bs (BitWriter_new d)))))
           = Inr (bs, r)"
proof -
  let ?D = "bw_dptr (Flush (put_bits bs (BitWriter_new d)))"
  from get_bits_reads [OF assms, of "BitReader_new ?D" "length bs"]
  obtain r where "get_bits (length bs) (BitReader_new ?D) =
      Inr (map (\<lambda>i. bit (?D (i div LENGTH('a))) (LENGTH('a) - 1 - i mod LENGTH('a))) [0..<length bs], r)"
    by (auto simp: BitReader_new_def)
  moreover have "map (\<lambda>i. bit (?D (i div LENGTH('a))) (LENGTH('a) - 1 - i mod LENGTH('a))) [0..<length bs] = bs"
  proof (rule nth_equalityI)
    show "length (map (\<lambda>i. bit (?D (i div LENGTH('a))) (LENGTH('a) - 1 - i mod LENGTH('a))) [0..<length bs])
        = length bs"
      by simp
  next
    fix i
    assume "i < length (map (\<lambda>i. bit (?D (i div LENGTH('a))) (LENGTH('a) - 1 - i mod LENGTH('a))) [0..<length bs])"
    then have "i < length bs" by simp
    then show "map (\<lambda>i. bit (?D (i div LENGTH('a))) (LENGTH('a) - 1 - i mod LENGTH('a))) [0..<length bs] ! i
        = bs ! i"
      using flushed_bit [of i bs d] by simp
  qed
  ultimately show ?thesis by auto
qed

text \<open>Unfolding the reading loops at a numeral count.\<close>

lemma read_num_numeral:
  "read_num (numeral k) num r =
     (case Get r of
        Inl e \<Rightarrow> Inl e
      | Inr (b, r') \<Rightarrow>
          read_num (pred_numeral k) (let num = push_bit 1 num in if b then num OR 1 else num) r')"
  by (simp add: numeral_eq_Suc)

lemma get_bits_numeral:
  "get_bits (numeral k) r =
     (case Get r of
        Inl e \<Rightarrow> Inl e
      | Inr (b, r') \<Rightarrow>
          (case get_bits (pred_numeral k) r' of
             Inl e \<Rightarrow> Inl e
           | Inr (bs, r'') \<Rightarrow> Inr (b # bs, r'')))"
  by (simp add: numeral_eq_Suc)

lemmas bit_stream_eval =
  EliasDeltaEncode_def EliasDeltaDecode_def BitWriter_new_def BitReader_new_def Put_def Flush_def
  Get_def bits_def put_bits_def count_zeros.simps read_num_numeral get_bits_numeral Let_def upt_conv_Cons

text \<open>
  The three code words of the specification, written through a writer of 32-bit words
  and read back: \<open>1\<close> is \<^verbatim>\<open>1\<close>, \<open>2\<close> is \<^verbatim>\<open>0100\<close>, \<open>5\<close> is \<^verbatim>\<open>01101\<close>, and each decodes to
  itself.
\<close>

lemma floor_log2_small:
  "floor_log2 (Suc 0) = 0" "floor_log2 1 = 0" "floor_log2 2 = 1" "floor_log2 3 = 1"
  "floor_log2 5 = 2"
  by (simp_all add: floor_log2.simps)

lemma double_of_ulong_small:
  "double_of_ulong 1 = 1" "double_of_ulong 2 = 2" "double_of_ulong 5 = 5"
  by (simp_all add: double_of_ulong_def floor_log2_small Let_def)

lemma EliasDelta_len_small:
  "1 + floor_log2 (double_of_ulong 1) = 1" "Suc (floor_log2 (double_of_ulong 1)) = 1"
  "1 + floor_log2 (double_of_ulong 2) = 2" "Suc (floor_log2 (double_of_ulong 2)) = 2"
  "1 + floor_log2 (double_of_ulong 5) = 3" "Suc (floor_log2 (double_of_ulong 5)) = 3"
  by (simp_all add: double_of_ulong_small floor_log2_small)

lemma EliasDeltaEncode_small:
  "EliasDeltaEncode (BitWriter_new (\<lambda>_. 0 :: 32 word)) 1
     = Inr \<lparr>bw_dptr = \<lambda>_. 0, bw_accum = 1, bw_used_bits = 1, bw_blocks = 0\<rparr>"
  "EliasDeltaEncode (BitWriter_new (\<lambda>_. 0 :: 32 word)) 2
     = Inr \<lparr>bw_dptr = \<lambda>_. 0, bw_accum = 4, bw_used_bits = 4, bw_blocks = 0\<rparr>"
  "EliasDeltaEncode (BitWriter_new (\<lambda>_. 0 :: 32 word)) 5
     = Inr \<lparr>bw_dptr = \<lambda>_. 0, bw_accum = 13, bw_used_bits = 5, bw_blocks = 0\<rparr>"
  by (simp_all add: EliasDeltaEncode_def BitWriter_new_def Put_def Let_def upt_conv_Cons
        EliasDelta_len_small floor_log2_small)

lemma EliasDelta_code_words:
  "(case EliasDeltaEncode (BitWriter_new (\<lambda>_. 0 :: 32 word)) 1 of
      Inl e \<Rightarrow> Inl e
    | Inr w \<Rightarrow> map_sum id fst (get_bits (bits w) (BitReader_new (bw_dptr (Flush w)))))
     = Inr [True]"
  "(case EliasDeltaEncode (BitWriter_new (\<lambda>_. 0 :: 32 word)) 2 of
      Inl e \<Rightarrow> Inl e
    | Inr w \<Rightarrow> map_sum id fst (get_bits (bits w) (BitReader_new (bw_dptr (Flush w)))))
     = Inr [False, True, False, False]"
  "(case EliasDeltaEncode (BitWriter_new (\<lambda>_. 0 :: 32 word)) 5 of
      Inl e \<Rightarrow> Inl e
    | Inr w \<Rightarrow> map_sum id fst (get_bits (bits w) (BitReader_new (bw_dptr (Flush w)))))
     = Inr [False, True, True, False, True]"
  unfolding EliasDeltaEncode_small
  by (simp_all add: bits_def Flush_def BitReader_new_def Get_def Let_def get_bits_numeral)

lemma EliasDelta_small_round_trips:
  "(case EliasDeltaEncode (BitWriter_new (\<lambda>_. 0 :: 32 word)) 1 of
      Inl e \<Rightarrow> Inl e
    | Inr w \<Rightarrow> map_sum id fst (EliasDeltaDecode (BitReader_new (bw_dptr (Flush w))))) = Inr 1"
  "(case EliasDeltaEncode (BitWriter_new (\<lambda>_. 0 :: 32 word)) 2 of
      Inl e \<Rightarrow> Inl e
    | Inr w \<Rightarrow> map_sum id fst (EliasDeltaDecode (BitReader_new (bw_dptr (Flush w))))) = Inr 2"
  "(case EliasDeltaEncode (BitWriter_new (\<lambda>_. 0 :: 32 word)) 5 of
      Inl e \<Rightarrow> Inl e
    | Inr w \<Rightarrow> map_sum id fst (EliasDeltaDecode (BitReader_new (bw_dptr (Flush w))))) = Inr 5"
  unfolding EliasDeltaEncode_small
  by (simp_all add: Flush_def BitReader_new_def Get_def Let_def EliasDeltaDecode_def
        count_zeros.simps read_num_numeral)

text \<open>
  The three loops of the decoder read the stream like \<open>get_bits\<close>: the first one a run of
  zeros and the one that ends it, the other two a number, highest bit first, below a
  leading one.
\<close>

lemma get_bits_length:
  "get_bits n r = Inr (bs, r') \<Longrightarrow> length bs = n"
  by (induction n arbitrary: r bs) (auto split: sum.splits)

lemma get_bits_add:
  "get_bits (m + n) r =
     (case get_bits m r of
        Inl e \<Rightarrow> Inl e
      | Inr (bs, r') \<Rightarrow>
          (case get_bits n r' of
             Inl e \<Rightarrow> Inl e
           | Inr (cs, r'') \<Rightarrow> Inr (bs @ cs, r'')))"
  by (induction m arbitrary: r) (auto split: sum.splits)

lemma get_bits_split:
  assumes "get_bits (m + n) r = Inr (bs @ cs, r'')" "length bs = m"
  shows "\<exists>r'. get_bits m r = Inr (bs, r') \<and> get_bits n r' = Inr (cs, r'')"
  using assms get_bits_length [of m r]
  by (auto simp: get_bits_add split: sum.splits)

lemma count_zeros_reads:
  assumes "get_bits (Suc z) r = Inr (replicate z False @ [True], r')" "n + z < 2 ^ 31"
  shows "count_zeros n r = Inr (n + z, r')"
  using assms
proof (induction z arbitrary: n r)
  case 0
  then show ?case
    by (subst count_zeros.simps) (auto split: sum.splits)
next
  case (Suc z)
  from Suc.prems(1) obtain r1 where g: "Get r = Inr (False, r1)"
    and r1: "get_bits (Suc z) r1 = Inr (replicate z False @ [True], r')"
    by (auto split: sum.splits)
  have "count_zeros (n + 1) r1 = Inr (n + 1 + z, r')"
    using Suc.prems(2) by (intro Suc.IH r1) simp
  then show ?case
    using g Suc.prems(2) by (subst count_zeros.simps) simp
qed

lemma read_len_reads:
  "read_len n len r =
     (case get_bits n r of
        Inl e \<Rightarrow> Inl e
      | Inr (bs, r') \<Rightarrow>
          Inr (fold (\<lambda>b a. push_bit 1 a OR (if b then 1 else 0)) bs len, r'))"
proof (induction n arbitrary: len r)
  case 0
  show ?case by simp
next
  case (Suc n)
  show ?case
    by (auto simp: Suc.IH split: sum.splits)
qed

lemma read_num_reads:
  "read_num n num r =
     (case get_bits n r of
        Inl e \<Rightarrow> Inl e
      | Inr (bs, r') \<Rightarrow>
          Inr (fold (\<lambda>b a. push_bit 1 a OR (if b then 1 else 0)) bs num, r'))"
proof (induction n arbitrary: num r)
  case 0
  show ?case by simp
next
  case (Suc n)
  show ?case
    by (auto simp: Suc.IH split: sum.splits)
qed

lemma fold_bits_of_word:
  fixes w :: "'b::len word"
  shows "fold (\<lambda>b a. push_bit 1 a OR (if b then 1 else 0)) (map (bit w) (rev [0..<m])) (drop_bit m w) = w"
proof (induction m)
  case 0
  show ?case by simp
next
  case (Suc m)
  have "push_bit 1 (drop_bit (Suc m) w) OR (if bit w m then 1 else 0) = drop_bit m w"
  proof (rule bit_word_eqI)
    fix k assume "k < LENGTH('b)"
    then show "bit (push_bit 1 (drop_bit (Suc m) w) OR (if bit w m then 1 else 0)) k = bit (drop_bit m w) k"
      unfolding bit_or_iff bit_push_bit_iff bit_drop_bit_eq
      by (cases k) (auto simp: bit_1_iff)
  qed
  then show ?case
    using Suc.IH by (simp del: push_bit_of_Suc_0)
qed

text \<open>
  \<open>floor_log2 v\<close> is the position of the leading one of \<open>v\<close>, a value below \<open>2^53\<close> is
  converted to double as it is, and the encoder writes the three fields one after the
  other.
\<close>

lemma floor_log2_bounds:
  "0 < v \<Longrightarrow> 2 ^ floor_log2 v \<le> v \<and> v < 2 ^ Suc (floor_log2 v)"
proof (induction v rule: floor_log2.induct)
  case (1 v)
  show ?case
  proof (cases "v < 2")
    case True
    with "1.prems" show ?thesis by (simp add: floor_log2.simps)
  next
    case False
    then have "2 ^ floor_log2 (v div 2) \<le> v div 2 \<and> v div 2 < 2 ^ Suc (floor_log2 (v div 2))"
      by (intro "1.IH") simp_all
    moreover have "floor_log2 v = Suc (floor_log2 (v div 2))"
      using False by (subst floor_log2.simps) simp
    ultimately show ?thesis by auto
  qed
qed

lemma floor_log2_less:
  assumes "0 < v" "v < 2 ^ n"
  shows "floor_log2 v < n"
proof -
  have "(2::nat) ^ floor_log2 v \<le> v"
    using floor_log2_bounds [OF assms(1)] by simp
  also note assms(2)
  finally show ?thesis by simp
qed

lemma floor_log2_top:
  assumes "0 < v"
  shows "v div 2 ^ floor_log2 v = 1"
proof -
  have "2 ^ floor_log2 v \<le> v" "v < 2 * 2 ^ floor_log2 v"
    using floor_log2_bounds [OF assms] by simp_all
  then show ?thesis
    by (intro div_nat_eqI) simp_all
qed

lemma double_of_ulong_exact:
  assumes "x \<noteq> 0" "x < 2 ^ 53"
  shows "double_of_ulong x = unat x"
proof -
  have "0 < unat x" "unat x < 2 ^ 53"
    using assms by (simp_all add: unat_gt_0 word_less_nat_alt)
  then have "floor_log2 (unat x) < 53"
    by (rule floor_log2_less)
  then show ?thesis
    by (simp add: double_of_ulong_def Let_def)
qed

lemma put_bits_append:
  "put_bits (bs @ cs) w = put_bits cs (put_bits bs w)"
  by (simp add: put_bits_def)

lemma fold_Put_map:
  "fold (\<lambda>i. Put (f i)) xs w = put_bits (map f xs) w"
  by (simp add: put_bits_def fold_map comp_def)

lemma EliasDeltaEncode_bits:
  assumes "x \<noteq> 0"
  shows "EliasDeltaEncode w x =
    Inr (put_bits
          (replicate (floor_log2 (1 + floor_log2 (double_of_ulong x))) False
           @ map (\<lambda>i. odd ((1 + floor_log2 (double_of_ulong x)) div 2 ^ i))
               (rev [0..<Suc (floor_log2 (1 + floor_log2 (double_of_ulong x)))])
           @ map (bit x) (rev [0..<floor_log2 (double_of_ulong x)])) w)"
proof -
  have z: "map (\<lambda>i. False) (rev [1..<Suc n]) = replicate n False" for n
    by (simp add: map_replicate_const)
  show ?thesis
    using assms unfolding EliasDeltaEncode_def Let_def fold_Put_map put_bits_append z
    by simp
qed

text \<open>
  The round trip for \<open>1 \<le> x < 2^32\<close> through a stream of words of at most 32 bits, with
  the fields as the specification lays them out. Below \<open>2^32\<close> the conversion to double
  is exact and the logarithm of a value that is not a power of two lies far from any
  integer, so that the integer part does not depend on how the library rounds it.
\<close>

lemma word_of_bits_top:
  fixes w :: "'b::len word"
  assumes "unat w div 2 ^ m = 1"
  shows "fold (\<lambda>b a. push_bit 1 a OR (if b then 1 else 0)) (map (bit w) (rev [0..<m])) 1 = w"
proof -
  have "unat (drop_bit m w) = drop_bit m (unat w)"
    by (rule unat_drop_bit_eq)
  also have "\<dots> = 1"
    using assms by (simp only: drop_bit_eq_div)
  finally have "unat (drop_bit m w) = unat (1 :: 'b word)"
    by simp
  then have "drop_bit m w = 1"
    by (simp only: word_unat_eq_iff)
  with fold_bits_of_word [of w m] show ?thesis by simp
qed

lemma EliasDelta_round_trip_below_2_32:
  fixes d :: "nat \<Rightarrow> 'a::len word"
  assumes len: "LENGTH('a) \<le> 32" and x0: "x \<noteq> 0" and small: "x < 2 ^ 32"
  shows "\<exists>w r r'. EliasDeltaEncode (BitWriter_new d) x = Inr w
     \<and> get_bits (bits w) (BitReader_new (bw_dptr (Flush w)))
         = Inr (replicate (floor_log2 (1 + floor_log2 (unat x))) False
                @ map (\<lambda>i. odd ((1 + floor_log2 (unat x)) div 2 ^ i))
                    (rev [0..<Suc (floor_log2 (1 + floor_log2 (unat x)))])
                @ map (bit x) (rev [0..<floor_log2 (unat x)]), r')
     \<and> EliasDeltaDecode (BitReader_new (bw_dptr (Flush w))) = Inr (x, r)"
proof -
  have "(2 ^ 32 :: 64 word) < 2 ^ 53"
    by simp
  with small have "x < 2 ^ 53"
    by (rule less_trans)
  with x0 have x: "x \<noteq> 0" "x < 2 ^ 53"
    by simp_all
  define n1 where "n1 = floor_log2 (unat x)"
  define LL where "LL = floor_log2 (Suc n1)"
  define W :: "32 word" where "W = word_of_nat (Suc n1)"
  define A where "A = replicate LL False @ [True]"
  define B where "B = map (bit W) (rev [0..<LL])"
  define C where "C = map (bit x) (rev [0..<n1])"
  define w where "w = put_bits (A @ B @ C) (BitWriter_new d)"
  define R0 where "R0 = BitReader_new (bw_dptr (Flush w))"
  have v: "0 < unat x" "unat x < 2 ^ 53"
    using x by (simp_all add: unat_gt_0 word_less_nat_alt)
  have n1: "n1 < 53"
    unfolding n1_def using v by (rule floor_log2_less)
  then have "Suc n1 < 2 ^ 6" by simp
  then have LL: "LL < 6"
    unfolding LL_def by (intro floor_log2_less) simp_all
  have uW: "unat W = Suc n1"
    unfolding W_def unat_of_nat using n1 by simp
  have "sint W = signed_take_bit 31 (uint W)"
    by (simp add: sint_uint)
  also have "uint W = int (Suc n1)"
    by (simp only: uint_nat uW)
  also have "signed_take_bit 31 (int (Suc n1)) = int (Suc n1)"
    using n1 by (intro signed_take_bit_int_eq_self) simp_all
  finally have sW: "sint W = int (Suc n1)" .
  have topW: "unat W div 2 ^ LL = 1"
    unfolding uW LL_def by (rule floor_log2_top) simp
  have topx: "unat x div 2 ^ n1 = 1"
    unfolding n1_def using v(1) by (rule floor_log2_top)
  have bW: "odd (Suc n1 div 2 ^ i) = bit W i" if "i < 32" for i
  proof -
    have "bit W i = (possible_bit TYPE(32 word) i \<and> bit (Suc n1) i)"
      unfolding W_def by (rule bit_of_nat_iff)
    also have "\<dots> = bit (Suc n1) i"
      using that by (simp only: possible_bit_word) simp
    also have "\<dots> = odd (Suc n1 div 2 ^ i)"
      by (rule bit_iff_odd)
    finally show ?thesis by simp
  qed
  have top: "Suc n1 div 2 ^ LL = 1"
    unfolding LL_def by (rule floor_log2_top) simp
  have "map (\<lambda>i. odd (Suc n1 div 2 ^ i)) (rev [0..<LL]) = B"
    unfolding B_def using LL by (intro map_cong refl bW) simp
  then have field: "map (\<lambda>i. odd (Suc n1 div 2 ^ i)) (rev [0..<Suc LL]) = True # B"
    using top by simp
  have E: "replicate (floor_log2 (1 + floor_log2 (unat x))) False
                @ map (\<lambda>i. odd ((1 + floor_log2 (unat x)) div 2 ^ i))
                    (rev [0..<Suc (floor_log2 (1 + floor_log2 (unat x)))])
                @ map (bit x) (rev [0..<floor_log2 (unat x)]) = A @ B @ C"
    using field by (simp add: A_def C_def n1_def [symmetric] LL_def [symmetric])
  have dx: "double_of_ulong x = unat x"
    using x by (rule double_of_ulong_exact)
  have enc: "EliasDeltaEncode (BitWriter_new d) x = Inr w"
    unfolding EliasDeltaEncode_bits [OF x(1)] dx E w_def ..
  have lens: "length A = Suc LL" "length B = LL" "length C = n1"
    by (simp_all add: A_def B_def C_def)
  have cnt: "bits w = Suc LL + (LL + n1)"
    by (simp add: w_def bits_def put_bits_state lens)
  from BitReader_round_trip_upto_32 [OF len, of "A @ B @ C" d]
  obtain r where all: "get_bits (Suc LL + (LL + n1)) R0 = Inr (A @ (B @ C), r)"
    by (auto simp: R0_def w_def lens)
  from get_bits_split [OF all lens(1)]
  obtain r1 where a: "get_bits (Suc LL) R0 = Inr (A, r1)"
    and bc: "get_bits (LL + n1) r1 = Inr (B @ C, r)"
    by blast
  from get_bits_split [OF bc lens(2)]
  obtain r2 where b: "get_bits LL r1 = Inr (B, r2)" and c: "get_bits n1 r2 = Inr (C, r)"
    by blast
  have z: "count_zeros 0 R0 = Inr (LL, r1)"
    using count_zeros_reads [of LL R0 r1 0] a LL by (simp add: A_def)
  have l: "read_len LL 1 r1 = Inr (W, r2)"
    using b word_of_bits_top [OF topW] by (simp add: read_len_reads B_def)
  have m: "read_num n1 1 r2 = Inr (x, r)"
    using c word_of_bits_top [OF topx] by (simp add: read_num_reads C_def)
  have dec: "EliasDeltaDecode R0 = Inr (x, r)"
    by (simp add: EliasDeltaDecode_def z l sW m)
  have all': "get_bits (bits w) R0 = Inr (A @ B @ C, r)"
    using all by (simp only: cnt append_assoc)
  show ?thesis
    unfolding E using enc all' dec unfolding R0_def by (intro exI [of _ w] exI [of _ r]) simp
qed

text \<open>
  The conversion to double at \<open>2^63 - 1\<close>: the 63 one bits do not fit the significand and
  the value is rounded up to \<open>2^63\<close>, whose logarithm is \<open>63\<close>.
\<close>

lemma floor_log2_large:
  "floor_log2 9223372036854775807 = 62" "floor_log2 9223372036854775808 = 63" "floor_log2 64 = 6"
  by (simp_all add: floor_log2.simps)

lemma double_of_ulong_rounds_up:
  "double_of_ulong 9223372036854775807 = 9223372036854775808"
  by (simp add: double_of_ulong_def Let_def floor_log2_large)

lemma EliasDelta_len_large:
  "1 + floor_log2 (double_of_ulong 9223372036854775807) = 64"
  "Suc (floor_log2 (double_of_ulong 9223372036854775807)) = 64"
  by (simp_all add: double_of_ulong_rounds_up floor_log2_large)

text \<open>
  Claim C4, at the input \<open>x = 2^63 - 1\<close> with a stream of 32-bit words. The length is
  computed as \<open>64\<close> instead of \<open>63\<close>, the encoder writes the \<open>63\<close> low bits of \<open>x\<close> after the
  length, and the decoder, which supplies the leading one itself, returns \<open>2^64 - 1\<close>
  and not \<open>x\<close>. The layout and the round trip of the claim do hold below \<open>2^32\<close>
  (\<open>EliasDelta_round_trip_below_2_32\<close>) and at the three examples
  (\<open>EliasDelta_code_words\<close>, \<open>EliasDelta_small_round_trips\<close>).
\<close>

theorem EliasDelta_round_trip_fails_at_2_63_minus_1:
  "(case EliasDeltaEncode (BitWriter_new (\<lambda>_. 0 :: 32 word)) 9223372036854775807 of
      Inl e \<Rightarrow> Inl e
    | Inr w \<Rightarrow> map_sum id fst (EliasDeltaDecode (BitReader_new (bw_dptr (Flush w)))))
     = Inr 18446744073709551615"
  by (simp add: bit_stream_eval EliasDelta_len_large floor_log2_large)

text \<open>
  Claim C5, at the word type of 64 bits and the bit sequence \<open>0, 1\<close>. The writer counts
  two bits, and the first \<open>Get\<close> of the reader shifts the \<^verbatim>\<open>int\<close> literal \<open>1\<close> by \<open>63\<close>, which
  is undefined: the reader does not return the sequence. For word types of at most 32
  bits the reader does return it, and the writer counts the bits for every word type
  (\<open>BitReader_round_trip_upto_32\<close>, \<open>BitWriter_bits_count\<close>).
\<close>

theorem BitReader_64_bit_words_undefined:
  "bits (Flush (put_bits [False, True] (BitWriter_new (\<lambda>_. 0 :: 64 word)))) = 2
   \<and> get_bits 2 (BitReader_new (bw_dptr (Flush (put_bits [False, True]
                   (BitWriter_new (\<lambda>_. 0 :: 64 word))))))
       = Inl Undefined"
  by (simp add: bit_stream_eval)

section \<open>Properties of the push handler\<close>

lemma SendPushResponse_fields:
  "sync_mode (SendPushResponse key req st) = sync_mode st"
  "is_engine_blocking (SendPushResponse key req st) = is_engine_blocking st"
  "NumWorkers (SendPushResponse key req st) = NumWorkers st"
  "timestamp (SendPushResponse key req st) = timestamp st"
  "update_buf (SendPushResponse key req st) = update_buf st"
  "trace (SendPushResponse key req st) =
     trace st @ [Response req (case push_response_map st key of None \<Rightarrow> KVPairs_empty
                               | Some response \<Rightarrow> response)]"
  by (simp_all add: SendPushResponse_def Let_def split: option.split)

lemma queue_push_fields:
  "sync_mode (queue_push tid msg st) = sync_mode st"
  "is_engine_blocking (queue_push tid msg st) = is_engine_blocking st"
  "NumWorkers (queue_push tid msg st) = NumWorkers st"
  "timestamp (queue_push tid msg st) = timestamp st + 1"
  "update_buf (queue_push tid msg st) = update_buf st"
  "push_response_map (queue_push tid msg st) = push_response_map st"
  "trace (queue_push tid msg st) = trace st @ [QueuePush tid msg]"
  by (simp_all add: queue_push_def)

lemma request_push_back_fields:
  "sync_mode (request_push_back key req st) = sync_mode st"
  "is_engine_blocking (request_push_back key req st) = is_engine_blocking st"
  "NumWorkers (request_push_back key req st) = NumWorkers st"
  "timestamp (request_push_back key req st) = timestamp st"
  "ub_request (update_buf (request_push_back key req st) key) = ub_request (update_buf st key) @ [req]"
  "ub_merged (update_buf (request_push_back key req st) key) = ub_merged (update_buf st key)"
  "push_response_map (request_push_back key req st) = push_response_map st"
  "trace (request_push_back key req st) = trace st"
  by (simp_all add: request_push_back_def)

lemma request_clear_fields:
  "sync_mode (request_clear key st) = sync_mode st"
  "is_engine_blocking (request_clear key st) = is_engine_blocking st"
  "NumWorkers (request_clear key st) = NumWorkers st"
  "timestamp (request_clear key st) = timestamp st"
  "ub_request (update_buf (request_clear key st) key) = []"
  "trace (request_clear key st) = trace st"
  by (simp_all add: request_clear_def)

lemmas push_fields =
  SendPushResponse_fields queue_push_fields request_push_back_fields request_clear_fields

text \<open>
  Claim C2, as amended. In sync mode with a non-blocking engine, a push for a key with
  fewer than \<open>N\<close> pending requests is accepted and leaves fewer than \<open>N\<close> pending
  requests. When it is the \<open>N\<close>-th push of the step, the handler pushes on the queue of
  the shard \<open>tid\<close> a message for that push, hands the acknowledgement to the transport,
  pushes an \<^verbatim>\<open>ALL_RECV\<close> message on the same queue, clears the counter of the key there
  and empties the pending requests. The message for the push is a \<^verbatim>\<open>SUM_RECV\<close> when
  \<open>N \<ge> 2\<close>; when \<open>N = 1\<close> the push is also the first of its step and the message is a
  \<^verbatim>\<open>COPY_FIRST\<close>. An earlier push of the step is appended to the pending requests.
\<close>

theorem BytePSHandlePush_last_push:
  assumes "sync_mode st" and "\<not> is_engine_blocking st"
    and "length (ub_request (update_buf st key)) < NumWorkers st"
  shows "\<exists>st'. BytePSHandlePush key type len stored recved req_meta req_data mixed_precision tid st
            = Inr st'
      \<and> NumWorkers st' = NumWorkers st
      \<and> length (ub_request (update_buf st' key)) < NumWorkers st'
      \<and> (length (ub_request (update_buf st key)) + 1 = NumWorkers st \<longrightarrow>
           trace st' = trace st @
            [QueuePush tid
               \<lparr>msg_id = timestamp st, msg_type = type, msg_key = key, msg_dst = ba_tensor stored,
                msg_src = recved, msg_len = len,
                msg_ops = (if NumWorkers st = 1 then COPY_FIRST else SUM_RECV),
                msg_sarray = req_data, msg_req_meta = req_meta,
                msg_mixed_precision = mixed_precision\<rparr>,
             Response req_meta
               (case push_response_map st key of None \<Rightarrow> KVPairs_empty
                | Some response \<Rightarrow> response),
             QueuePush tid
               \<lparr>msg_id = timestamp st + 1,
                msg_type = \<lparr>dh_requestType = dh_requestType type, dh_dtype = ba_dtype stored\<rparr>,
                msg_key = key, msg_dst = ba_tensor stored, msg_src = ba_tensor stored,
                msg_len = ba_len stored, msg_ops = ALL_RECV, msg_sarray = req_data,
                msg_req_meta = req_meta, msg_mixed_precision = mixed_precision\<rparr>,
             QueueClearCounter tid key]
           \<and> ub_request (update_buf st' key) = [])
      \<and> (length (ub_request (update_buf st key)) + 1 < NumWorkers st \<longrightarrow>
           ub_request (update_buf st' key) = ub_request (update_buf st key) @ [req_meta])"
proof (cases "ub_request (update_buf st key) = []")
  case True
  show ?thesis
  proof (cases "NumWorkers st = 1")
    case one: True
    then show ?thesis
      using assms(1,2) True
      by (simp add: BytePSHandlePush_def Let_def push_fields engine_message_def)
  next
    case False
    then show ?thesis
      using assms True
      by (simp add: BytePSHandlePush_def Let_def push_fields engine_message_def)
  qed
next
  case False
  then have n: "NumWorkers st \<noteq> 1"
    using assms(3) by (cases "ub_request (update_buf st key)") auto
  show ?thesis
  proof (cases "length (ub_request (update_buf st key)) + 1 = NumWorkers st")
    case last: True
    then show ?thesis
      using assms(1,2) False n
      by (simp add: BytePSHandlePush_def Let_def push_fields engine_message_def)
  next
    case more: False
    then show ?thesis
      using assms False n
      by (simp add: BytePSHandlePush_def Let_def push_fields engine_message_def)
  qed
qed

theorem BytePSHandlePush_last_push_witness:
  "sync_mode ((server_init True False 2)
      \<lparr>update_buf := (\<lambda>_. UpdateBuf_empty)
         (7 := UpdateBuf_empty\<lparr>ub_request :=
                 [\<lparr>meta_cmd = 0, meta_push = True, meta_sender = 9, meta_timestamp = 0\<rparr>]\<rparr>)\<rparr>)
   \<and> map_sum id trace
        (BytePSHandlePush 7 \<lparr>dh_requestType = kDefaultPushPull, dh_dtype = 0\<rparr> 16
           \<lparr>ba_tensor = 1000, ba_len = 16, ba_dtype = 0, ba_tmp_sarray = KVPairs_empty\<rparr> 2000
           \<lparr>meta_cmd = 0, meta_push = True, meta_sender = 11, meta_timestamp = 1\<rparr>
           \<lparr>kv_keys = [EncodeKey 7], kv_vals = (2000, 16), kv_lens = [16]\<rparr> False 3
           ((server_init True False 2)
              \<lparr>update_buf := (\<lambda>_. UpdateBuf_empty)
                 (7 := UpdateBuf_empty\<lparr>ub_request :=
                   [\<lparr>meta_cmd = 0, meta_push = True, meta_sender = 9, meta_timestamp = 0\<rparr>]\<rparr>)\<rparr>))
      = Inr [QueuePush 3
               \<lparr>msg_id = 0, msg_type = \<lparr>dh_requestType = kDefaultPushPull, dh_dtype = 0\<rparr>,
                msg_key = 7, msg_dst = 1000, msg_src = 2000, msg_len = 16, msg_ops = SUM_RECV,
                msg_sarray = \<lparr>kv_keys = [EncodeKey 7], kv_vals = (2000, 16), kv_lens = [16]\<rparr>,
                msg_req_meta = \<lparr>meta_cmd = 0, meta_push = True, meta_sender = 11, meta_timestamp = 1\<rparr>,
                msg_mixed_precision = False\<rparr>,
             Response \<lparr>meta_cmd = 0, meta_push = True, meta_sender = 11, meta_timestamp = 1\<rparr>
               KVPairs_empty,
             QueuePush 3
               \<lparr>msg_id = 1, msg_type = \<lparr>dh_requestType = kDefaultPushPull, dh_dtype = 0\<rparr>,
                msg_key = 7, msg_dst = 1000, msg_src = 1000, msg_len = 16, msg_ops = ALL_RECV,
                msg_sarray = \<lparr>kv_keys = [EncodeKey 7], kv_vals = (2000, 16), kv_lens = [16]\<rparr>,
                msg_req_meta = \<lparr>meta_cmd = 0, meta_push = True, meta_sender = 11, meta_timestamp = 1\<rparr>,
                msg_mixed_precision = False\<rparr>,
             QueueClearCounter 3 7]"
  using BytePSHandlePush_last_push
    [where st = "(server_init True False 2)
      \<lparr>update_buf := (\<lambda>_. UpdateBuf_empty)
         (7 := UpdateBuf_empty\<lparr>ub_request :=
                 [\<lparr>meta_cmd = 0, meta_push = True, meta_sender = 9, meta_timestamp = 0\<rparr>]\<rparr>)\<rparr>"
       and key = 7 and type = "\<lparr>dh_requestType = kDefaultPushPull, dh_dtype = 0\<rparr>" and len = 16
       and stored = "\<lparr>ba_tensor = 1000, ba_len = 16, ba_dtype = 0, ba_tmp_sarray = KVPairs_empty\<rparr>"
       and recved = 2000
       and req_meta = "\<lparr>meta_cmd = 0, meta_push = True, meta_sender = 11, meta_timestamp = 1\<rparr>"
       and req_data = "\<lparr>kv_keys = [EncodeKey 7], kv_vals = (2000, 16), kv_lens = [16]\<rparr>"
       and mixed_precision = False and tid = 3]
  by (auto simp: server_init_def UpdateBuf_empty_def)

text \<open>
  The claim as it was stated fails for a single worker: the first push of a step is
  then the \<open>N\<close>-th one, no request is pending, and the message pushed for it is a
  \<^verbatim>\<open>COPY_FIRST\<close>; no \<^verbatim>\<open>SUM_RECV\<close> is pushed.
\<close>

theorem BytePSHandlePush_single_worker_copy_first:
  "length (ub_request (update_buf (server_init True False 1) 7))
     = NumWorkers (server_init True False 1) - 1
   \<and> map_sum id trace
        (BytePSHandlePush 7 \<lparr>dh_requestType = kDefaultPushPull, dh_dtype = 0\<rparr> 16
           \<lparr>ba_tensor = 1000, ba_len = 16, ba_dtype = 0, ba_tmp_sarray = KVPairs_empty\<rparr> 2000
           \<lparr>meta_cmd = 0, meta_push = True, meta_sender = 11, meta_timestamp = 1\<rparr>
           \<lparr>kv_keys = [EncodeKey 7], kv_vals = (2000, 16), kv_lens = [16]\<rparr> False 3
           (server_init True False 1))
      = Inr [QueuePush 3
               \<lparr>msg_id = 0, msg_type = \<lparr>dh_requestType = kDefaultPushPull, dh_dtype = 0\<rparr>,
                msg_key = 7, msg_dst = 1000, msg_src = 2000, msg_len = 16, msg_ops = COPY_FIRST,
                msg_sarray = \<lparr>kv_keys = [EncodeKey 7], kv_vals = (2000, 16), kv_lens = [16]\<rparr>,
                msg_req_meta = \<lparr>meta_cmd = 0, meta_push = True, meta_sender = 11, meta_timestamp = 1\<rparr>,
                msg_mixed_precision = False\<rparr>,
             Response \<lparr>meta_cmd = 0, meta_push = True, meta_sender = 11, meta_timestamp = 1\<rparr>
               KVPairs_empty,
             QueuePush 3
               \<lparr>msg_id = 1, msg_type = \<lparr>dh_requestType = kDefaultPushPull, dh_dtype = 0\<rparr>,
                msg_key = 7, msg_dst = 1000, msg_src = 1000, msg_len = 16, msg_ops = ALL_RECV,
                msg_sarray = \<lparr>kv_keys = [EncodeKey 7], kv_vals = (2000, 16), kv_lens = [16]\<rparr>,
                msg_req_meta = \<lparr>meta_cmd = 0, meta_push = True, meta_sender = 11, meta_timestamp = 1\<rparr>,
                msg_mixed_precision = False\<rparr>,
             QueueClearCounter 3 7]"
  by (simp add: server_init_def UpdateBuf_empty_def BytePSHandlePush_def Let_def push_fields
        engine_message_def)

section \<open>Properties of the pull bookkeeping\<close>

lemma SendPullResponse_result:
  assumes "ba_tensor (ub_merged (update_buf st key)) \<noteq> 0"
  shows "\<exists>kv. SendPullResponse type key req_meta st =
           Inr (st\<lparr>pull_response_map := (pull_response_map st)(key \<mapsto> kv),
                   trace := trace st @ [Response req_meta kv]\<rparr>)
         \<and> kv_vals kv = (ba_tensor (ub_merged (update_buf st key)),
                         ba_len (ub_merged (update_buf st key)))
         \<and> kv_lens kv = [ba_len (ub_merged (update_buf st key))]"
proof (cases "pull_response_map st key")
  case None
  then show ?thesis
    using assms
    by (intro exI [of _ "\<lparr>kv_keys = [EncodeKey key],
           kv_vals = (ba_tensor (ub_merged (update_buf st key)),
                      ba_len (ub_merged (update_buf st key))),
           kv_lens = [ba_len (ub_merged (update_buf st key))]\<rparr>"])
       (simp add: SendPullResponse_def Let_def)
next
  case (Some response)
  then show ?thesis
    using assms
    by (intro exI [of _ "response\<lparr>kv_lens := [ba_len (ub_merged (update_buf st key))],
           kv_vals := (ba_tensor (ub_merged (update_buf st key)),
                       ba_len (ub_merged (update_buf st key)))\<rparr>"])
       (simp add: SendPullResponse_def Let_def)
qed

lemma count_pull_fields:
  "NumWorkers (count_pull i key s st) = NumWorkers st"
  "update_buf (count_pull i key s st) = update_buf st"
  "trace (count_pull i key s st) = trace st"
  "is_push_finished (count_pull i key s st) = is_push_finished st"
  "pull_cnt (count_pull i key s st) i key = pull_cnt st i key + 1"
  "seen_sender (count_pull i key s st) i key = insert s (seen_sender st i key)"
  "q_pull_reqmeta (count_pull i key s st) = q_pull_reqmeta st"
  by (simp_all add: count_pull_def)

lemma reset_pull_state_fields:
  "NumWorkers (reset_pull_state i key st) = NumWorkers st"
  "sync_mode (reset_pull_state i key st) = sync_mode st"
  "is_engine_blocking (reset_pull_state i key st) = is_engine_blocking st"
  "update_buf (reset_pull_state i key st) = update_buf st"
  "trace (reset_pull_state i key st) = trace st"
  "is_push_finished (reset_pull_state i key st) i key = Some False"
  "pull_cnt (reset_pull_state i key st) i key = 0"
  "seen_sender (reset_pull_state i key st) i key = {}"
  "q_pull_reqmeta (reset_pull_state i key st) = q_pull_reqmeta st"
  by (simp_all add: reset_pull_state_def)

lemma ALL_RECV_loop_serves:
  assumes "finite (seen_sender st i (msg_key msg))"
    and "pull_cnt st i (msg_key msg) = card (seen_sender st i (msg_key msg))"
    and "pull_cnt st i (msg_key msg) < NumWorkers st"
    and "is_push_finished st i (msg_key msg) = Some True"
    and "ba_tensor (ub_merged (update_buf st (msg_key msg))) \<noteq> 0"
  shows "\<exists>st' ms. ALL_RECV_loop i msg kept rest st = Inr st'
           \<and> NumWorkers st' = NumWorkers st
           \<and> pulls_served st st' i (msg_key msg) True ms"
  using assms
proof (induction rest arbitrary: kept st)
  case Nil
  then show ?case
    by (intro exI [of _ "[]"] exI) (auto simp: pulls_served_def)
next
  case (Cons it rest)
  let ?k = "msg_key msg"
  show ?case
  proof (cases "meta_sender it \<in> seen_sender st i ?k")
    case True
    obtain st' ms where r: "ALL_RECV_loop i msg (kept @ [it]) rest st = Inr st'"
        "NumWorkers st' = NumWorkers st" "pulls_served st st' i ?k True ms"
      using Cons.IH [OF Cons.prems] by blast
    have "ALL_RECV_loop i msg kept (it # rest) st = ALL_RECV_loop i msg (kept @ [it]) rest st"
      using True Cons.prems(3) by simp
    with r show ?thesis by auto
  next
    case False
    obtain kv where kv: "SendPullResponse (msg_type msg) ?k it st =
           Inr (st\<lparr>pull_response_map := (pull_response_map st)(?k \<mapsto> kv),
                   trace := trace st @ [Response it kv]\<rparr>)"
        "kv_vals kv = (ba_tensor (ub_merged (update_buf st ?k)), ba_len (ub_merged (update_buf st ?k)))"
        "kv_lens kv = [ba_len (ub_merged (update_buf st ?k))]"
      using SendPullResponse_result [OF Cons.prems(5)] by blast
    define st1 where "st1 = st\<lparr>pull_response_map := (pull_response_map st)(?k \<mapsto> kv),
                   trace := trace st @ [Response it kv]\<rparr>"
    define st2 where "st2 = count_pull i ?k (meta_sender it) st1"
    have st2: "NumWorkers st2 = NumWorkers st" "update_buf st2 = update_buf st"
      "trace st2 = trace st @ [Response it kv]"
      "is_push_finished st2 = is_push_finished st"
      "pull_cnt st2 i ?k = pull_cnt st i ?k + 1"
      "seen_sender st2 i ?k = insert (meta_sender it) (seen_sender st i ?k)"
      "q_pull_reqmeta st2 = q_pull_reqmeta st"
      by (simp_all add: st2_def st1_def count_pull_fields)
    show ?thesis
    proof (cases "pull_cnt st2 i ?k = NumWorkers st2")
      case last: True
      have "ALL_RECV_loop i msg kept (it # rest) st =
          Inr ((reset_pull_state i ?k st2)
                 \<lparr>q_pull_reqmeta := (q_pull_reqmeta st2)(i := (q_pull_reqmeta st2 i)(?k := kept @ rest))\<rparr>)"
        using False kv(1) last by (simp add: st1_def st2_def)
      moreover have "pulls_served st
          ((reset_pull_state i ?k st2)
             \<lparr>q_pull_reqmeta := (q_pull_reqmeta st2)(i := (q_pull_reqmeta st2 i)(?k := kept @ rest))\<rparr>)
          i ?k True [it]"
        unfolding pulls_served_def
        using False last kv(2,3) st2
        by (auto simp: reset_pull_state_fields intro!: exI [of _ "[kv]"])
      ultimately show ?thesis
        using st2(1) by (auto simp: reset_pull_state_fields)
    next
      case more: False
      have lt: "pull_cnt st2 i ?k < NumWorkers st2"
        using more Cons.prems(3) st2 by simp
      have card: "pull_cnt st2 i ?k = card (seen_sender st2 i ?k)"
        using False Cons.prems(1,2) st2 by simp
      obtain st' ms where r: "ALL_RECV_loop i msg kept rest st2 = Inr st'"
          "NumWorkers st' = NumWorkers st2" "pulls_served st2 st' i ?k True ms"
        using Cons.IH [of st2 kept] Cons.prems st2 lt card by auto
      have step: "ALL_RECV_loop i msg kept (it # rest) st = ALL_RECV_loop i msg kept rest st2"
        using False kv(1) more by (simp add: st1_def st2_def)
      have ub: "update_buf st' = update_buf st2"
        using r(3) unfolding pulls_served_def by blast
      from r(3) obtain kvs where kvs: "length kvs = length ms"
          "trace st' = trace st2 @ map2 Response ms kvs"
          "\<forall>kv\<in>set kvs. kv_vals kv = (ba_tensor (ub_merged (update_buf st2 ?k)),
                                       ba_len (ub_merged (update_buf st2 ?k)))
                        \<and> kv_lens kv = [ba_len (ub_merged (update_buf st2 ?k))]"
        unfolding pulls_served_def by blast
      have rest: "distinct (map meta_sender ms)"
          "\<forall>m\<in>set ms. meta_sender m \<notin> seen_sender st2 i ?k"
          "pull_cnt st2 i ?k + length ms \<le> NumWorkers st2"
          "if pull_cnt st2 i ?k + length ms = NumWorkers st2
           then is_push_finished st' i ?k = Some False
                \<and> pull_cnt st' i ?k = 0 \<and> seen_sender st' i ?k = {}
           else is_push_finished st' i ?k = Some True
                \<and> pull_cnt st' i ?k = pull_cnt st2 i ?k + length ms
                \<and> seen_sender st' i ?k = seen_sender st2 i ?k \<union> meta_sender ` set ms"
        using r(3) unfolding pulls_served_def by blast+
      have "pulls_served st st' i ?k True (it # ms)"
        unfolding pulls_served_def
      proof (intro conjI)
        show "update_buf st' = update_buf st"
          using ub st2 by simp
        show "\<exists>kvs. length kvs = length (it # ms)
            \<and> trace st' = trace st @ map2 Response (it # ms) kvs
            \<and> (\<forall>kv\<in>set kvs. kv_vals kv = (ba_tensor (ub_merged (update_buf st ?k)),
                                            ba_len (ub_merged (update_buf st ?k)))
                             \<and> kv_lens kv = [ba_len (ub_merged (update_buf st ?k))])"
          using kvs kv(2,3) st2 by (intro exI [of _ "kv # kvs"]) simp
        show "distinct (map meta_sender (it # ms))"
          using rest(1,2) st2 by auto
        show "\<forall>m\<in>set (it # ms). meta_sender m \<notin> seen_sender st i ?k"
          using rest(2) st2 False by auto
        show "pull_cnt st i ?k + length (it # ms) \<le> NumWorkers st"
          using rest(3) st2 by simp
        show "if pull_cnt st i ?k + length (it # ms) = NumWorkers st
           then is_push_finished st' i ?k = Some False
                \<and> pull_cnt st' i ?k = 0 \<and> seen_sender st' i ?k = {}
           else is_push_finished st' i ?k = Some True
                \<and> pull_cnt st' i ?k = pull_cnt st i ?k + length (it # ms)
                \<and> seen_sender st' i ?k = seen_sender st i ?k \<union> meta_sender ` set (it # ms)"
          using rest(4) st2 by auto
      qed
      with r step st2 show ?thesis by auto
    qed
  qed
qed

lemma pulls_served_cong:
  assumes "pulls_served st1 st' i key fin ms"
    and "trace st1 = trace st" "update_buf st1 = update_buf st" "NumWorkers st1 = NumWorkers st"
    and "pull_cnt st1 i key = pull_cnt st i key" "seen_sender st1 i key = seen_sender st i key"
  shows "pulls_served st st' i key fin ms"
  using assms unfolding pulls_served_def by simp

lemma pulls_served_inv:
  assumes "pull_inv st i key" and "NumWorkers st' = NumWorkers st"
    and "pulls_served st st' i key fin ms" and "\<not> fin \<longrightarrow> ms = []"
    and "fin \<or> is_push_finished st i key \<noteq> Some True"
    and "fin \<longrightarrow> ba_tensor (ub_merged (update_buf st key)) \<noteq> 0"
  shows "pull_inv st' i key"
proof (cases "pull_cnt st i key + length ms = NumWorkers st")
  case True
  then show ?thesis
    using assms unfolding pull_inv_def pulls_served_def by auto
next
  case False
  have fin: "finite (seen_sender st i key)" and cnt: "pull_cnt st i key = card (seen_sender st i key)"
    using assms(1) unfolding pull_inv_def by simp_all
  have d: "distinct (map meta_sender ms)" and n: "\<forall>m\<in>set ms. meta_sender m \<notin> seen_sender st i key"
    and le: "pull_cnt st i key + length ms \<le> NumWorkers st"
    and s: "is_push_finished st' i key = Some fin"
      "pull_cnt st' i key = pull_cnt st i key + length ms"
      "seen_sender st' i key = seen_sender st i key \<union> meta_sender ` set ms"
    using assms(3) False unfolding pulls_served_def by auto
  have "card (seen_sender st i key \<union> meta_sender ` set ms)
      = card (seen_sender st i key) + card (meta_sender ` set ms)"
    using fin n by (intro card_Un_disjoint) auto
  also have "card (meta_sender ` set ms) = length ms"
    using d by (metis distinct_card length_map set_map)
  finally have c: "pull_cnt st' i key = card (seen_sender st' i key)"
    using s cnt by simp
  have e: "is_push_finished st' i key \<noteq> Some True \<longrightarrow> seen_sender st' i key = {}"
    using s assms(1,4,5) unfolding pull_inv_def by auto
  have ub: "update_buf st' = update_buf st"
    using assms(3) unfolding pulls_served_def by simp
  have m: "is_push_finished st' i key = Some True \<longrightarrow>
      ba_tensor (ub_merged (update_buf st' key)) \<noteq> 0"
    using s(1) assms(6) ub by simp
  show ?thesis
    unfolding pull_inv_def using fin s c e m le False assms(2) by auto
qed

lemma EngineThread_case_ALL_RECV_serves:
  assumes inv: "pull_inv st i key" and k: "msg_key msg = key"
    and set: "ba_tensor (ub_merged (update_buf st key)) \<noteq> 0"
  shows "\<exists>st' ms. EngineThread_case_ALL_RECV i msg st = Inr st'
           \<and> pull_inv st' i key \<and> pulls_served st st' i key True ms"
proof -
  have fin: "finite (seen_sender st i key)" and cnt: "pull_cnt st i key = card (seen_sender st i key)"
    and lt: "pull_cnt st i key < NumWorkers st"
    and emp: "is_push_finished st i key \<noteq> Some True \<Longrightarrow> seen_sender st i key = {}"
    using inv unfolding pull_inv_def by simp_all
  define st0 where "st0 = (if is_push_finished st i key = None then reset_pull_state i key st else st)"
  have st0: "NumWorkers st0 = NumWorkers st" "update_buf st0 = update_buf st" "trace st0 = trace st"
    "pull_cnt st0 i key = pull_cnt st i key" "seen_sender st0 i key = seen_sender st i key"
    using emp cnt by (auto simp: st0_def reset_pull_state_fields)
  define st1 where "st1 = st0\<lparr>is_push_finished :=
      (is_push_finished st0)(i := (is_push_finished st0 i)(key \<mapsto> True))\<rparr>"
  have st1: "NumWorkers st1 = NumWorkers st" "update_buf st1 = update_buf st" "trace st1 = trace st"
    "pull_cnt st1 i key = pull_cnt st i key" "seen_sender st1 i key = seen_sender st i key"
    "is_push_finished st1 i key = Some True"
    using st0 by (simp_all add: st1_def)
  have run: "EngineThread_case_ALL_RECV i msg st = ALL_RECV_loop i msg [] (q_pull_reqmeta st1 i key) st1"
    using k by (simp add: EngineThread_case_ALL_RECV_def Let_def st0_def st1_def)
  obtain st' ms where r: "ALL_RECV_loop i msg [] (q_pull_reqmeta st1 i key) st1 = Inr st'"
      "NumWorkers st' = NumWorkers st1" "pulls_served st1 st' i key True ms"
    using ALL_RECV_loop_serves [of st1 i msg "[]" "q_pull_reqmeta st1 i key"]
      k st1 fin cnt lt set by auto
  have ps: "pulls_served st st' i key True ms"
    using pulls_served_cong [OF r(3)] st1 by simp
  have "pull_inv st' i key"
    using pulls_served_inv [OF inv _ ps] r(2) st1(1) set by simp
  with run r(1) ps show ?thesis
    by auto
qed

lemma EngineThread_compress_ALL_RECV:
  assumes "msg_ops msg = ALL_RECV"
  shows "\<exists>st1. EngineThread_compress msg st = Inr (msg, st1)
     \<and> (ba_tensor (ub_merged (update_buf st1 (msg_key msg))),
         ba_len (ub_merged (update_buf st1 (msg_key msg))))
        = (case compressor_map st (msg_key msg) of
             Some c \<Rightarrow> cpr_Compress c (msg_src msg) (msg_len msg) (dh_dtype (msg_type msg))
                         (ba_tensor (fp16_copy st (msg_key msg)))
           | None \<Rightarrow>
               if msg_mixed_precision msg
               then (ba_tensor (fp16_copy st (msg_key msg)), ba_len (fp16_copy st (msg_key msg)))
               else (msg_src msg, msg_len msg))
     \<and> trace st1 = trace st @
          (if compressor_map st (msg_key msg) = None \<and> msg_mixed_precision msg
           then [ReducerCopyMixed (ba_tensor (fp16_copy st (msg_key msg))) (msg_src msg)
                   (ba_len (fp16_copy st (msg_key msg))) (ba_dtype (fp16_copy st (msg_key msg)))
                   False]
           else [])
     \<and> NumWorkers st1 = NumWorkers st \<and> is_push_finished st1 = is_push_finished st
     \<and> pull_cnt st1 = pull_cnt st \<and> seen_sender st1 = seen_sender st
     \<and> q_pull_reqmeta st1 = q_pull_reqmeta st"
  using assms
  by (auto simp: EngineThread_compress_def set_merged_def Let_def split: option.split prod.split)

text \<open>
  Claim C1. In sync mode with a non-blocking engine, for a key and the shard it maps
  to, let the bookkeeping invariant hold.

  The engine thread, given an \<^verbatim>\<open>ALL_RECV\<close> message for the key, aborts when the
  destination or the source pointer of the message is null. Otherwise it first points
  the merged buffer of the key to the output of the compressor of the key, or to the
  half-precision copy, or, with no compressor and no mixed precision, to the source
  buffer and the length of the message; in this last case, and in the other two when
  the pointer they give is not null, the \<^verbatim>\<open>ALL_RECV\<close> case returns normally and keeps
  the invariant.

  The pull handler aborts when the stored buffer of the key is null; given a request
  for an initialised key, it returns normally and keeps the invariant; it serves the request at once when the pushes are finished and its
  sender has not been served, and parks it at the end of the queue otherwise.

  In both, the responses sent go to different senders, none of them served before in
  this step, each carries the pointer and the length of the merged buffer as they are
  then, and exactly when the pull counter reaches the number of workers,
  \<^verbatim>\<open>is_push_finished\<close> is false, the counter is \<open>0\<close> and the set of senders is empty
  afterwards.
\<close>

theorem pull_bookkeeping_invariant:
  assumes "sync_mode st" and "\<not> is_engine_blocking st"
    and "pull_inv st i key"
  shows "(msg_key msg = key \<and> msg_ops msg = ALL_RECV \<longrightarrow>
            (msg_dst msg = 0 \<or> msg_src msg = 0 \<longrightarrow>
               BytePSServerEngineThread_body i msg st = Inl Fatal)
          \<and> (msg_dst msg \<noteq> 0 \<and> msg_src msg \<noteq> 0 \<longrightarrow>
               (\<exists>st1. EngineThread_compress msg st = Inr (msg, st1)
                  \<and> (ba_tensor (ub_merged (update_buf st1 key)),
                      ba_len (ub_merged (update_buf st1 key)))
                     = (case compressor_map st key of
                          Some c \<Rightarrow> cpr_Compress c (msg_src msg) (msg_len msg)
                                      (dh_dtype (msg_type msg)) (ba_tensor (fp16_copy st key))
                        | None \<Rightarrow>
                            if msg_mixed_precision msg
                            then (ba_tensor (fp16_copy st key), ba_len (fp16_copy st key))
                            else (msg_src msg, msg_len msg))
                  \<and> ((compressor_map st key = None \<and> \<not> msg_mixed_precision msg)
                        \<or> ba_tensor (ub_merged (update_buf st1 key)) \<noteq> 0 \<longrightarrow>
                       (\<exists>st' ms. BytePSServerEngineThread_body i msg st = Inr st'
                          \<and> pull_inv st' i key \<and> pulls_served st1 st' i key True ms)))))
       \<and> (ba_tensor stored = 0 \<longrightarrow>
            BytePSHandlePull key type stored req_meta req_data i st = Inl Fatal)
       \<and> (ba_tensor stored \<noteq> 0 \<longrightarrow>
            (\<exists>st'. BytePSHandlePull key type stored req_meta req_data i st = Inr st'
               \<and> pull_inv st' i key
               \<and> (if is_push_finished st i key = Some True
                      \<and> meta_sender req_meta \<notin> seen_sender st i key
                   then pulls_served st st' i key True [req_meta]
                        \<and> q_pull_reqmeta st' i key = q_pull_reqmeta st i key
                   else pulls_served st st' i key (is_push_finished st i key = Some True) []
                        \<and> q_pull_reqmeta st' i key = q_pull_reqmeta st i key @ [req_meta])))"
proof (intro conjI impI)
  have fin: "finite (seen_sender st i key)" and cnt: "pull_cnt st i key = card (seen_sender st i key)"
    and lt: "pull_cnt st i key < NumWorkers st"
    and emp: "is_push_finished st i key \<noteq> Some True \<Longrightarrow> seen_sender st i key = {}"
    and set: "is_push_finished st i key = Some True \<Longrightarrow>
        ba_tensor (ub_merged (update_buf st key)) \<noteq> 0"
    using assms(3) unfolding pull_inv_def by simp_all
  {
    assume "msg_key msg = key \<and> msg_ops msg = ALL_RECV" and "msg_dst msg = 0 \<or> msg_src msg = 0"
    then show "BytePSServerEngineThread_body i msg st = Inl Fatal"
      by (auto simp: BytePSServerEngineThread_body_def)
  }
  {
    assume a: "msg_key msg = key \<and> msg_ops msg = ALL_RECV" and p: "msg_dst msg \<noteq> 0 \<and> msg_src msg \<noteq> 0"
    from EngineThread_compress_ALL_RECV [of msg st] a
    obtain st1 where c: "EngineThread_compress msg st = Inr (msg, st1)"
      and m: "(ba_tensor (ub_merged (update_buf st1 key)), ba_len (ub_merged (update_buf st1 key)))
        = (case compressor_map st key of
             Some c \<Rightarrow> cpr_Compress c (msg_src msg) (msg_len msg) (dh_dtype (msg_type msg))
                         (ba_tensor (fp16_copy st key))
           | None \<Rightarrow>
               if msg_mixed_precision msg
               then (ba_tensor (fp16_copy st key), ba_len (fp16_copy st key))
               else (msg_src msg, msg_len msg))"
      and same: "NumWorkers st1 = NumWorkers st" "is_push_finished st1 = is_push_finished st"
        "pull_cnt st1 = pull_cnt st" "seen_sender st1 = seen_sender st"
      by auto
    have body: "BytePSServerEngineThread_body i msg st = EngineThread_case_ALL_RECV i msg st1"
      using a p c by (simp add: BytePSServerEngineThread_body_def)
    have served: "\<exists>st' ms. BytePSServerEngineThread_body i msg st = Inr st'
                          \<and> pull_inv st' i key \<and> pulls_served st1 st' i key True ms"
      if cs: "(compressor_map st key = None \<and> \<not> msg_mixed_precision msg)
                \<or> ba_tensor (ub_merged (update_buf st1 key)) \<noteq> 0"
    proof -
      have nz: "ba_tensor (ub_merged (update_buf st1 key)) \<noteq> 0"
        using cs m p by auto
      have "pull_inv st1 i key"
        using assms(3) nz unfolding pull_inv_def same by simp
      from EngineThread_case_ALL_RECV_serves [OF this _ nz, of msg] a
      show ?thesis
        unfolding body by simp
    qed
    from c m served
    show "\<exists>st1. EngineThread_compress msg st = Inr (msg, st1)
                  \<and> (ba_tensor (ub_merged (update_buf st1 key)),
                      ba_len (ub_merged (update_buf st1 key)))
                     = (case compressor_map st key of
                          Some c \<Rightarrow> cpr_Compress c (msg_src msg) (msg_len msg)
                                      (dh_dtype (msg_type msg)) (ba_tensor (fp16_copy st key))
                        | None \<Rightarrow>
                            if msg_mixed_precision msg
                            then (ba_tensor (fp16_copy st key), ba_len (fp16_copy st key))
                            else (msg_src msg, msg_len msg))
                  \<and> ((compressor_map st key = None \<and> \<not> msg_mixed_precision msg)
                        \<or> ba_tensor (ub_merged (update_buf st1 key)) \<noteq> 0 \<longrightarrow>
                       (\<exists>st' ms. BytePSServerEngineThread_body i msg st = Inr st'
                          \<and> pull_inv st' i key \<and> pulls_served st1 st' i key True ms))"
      by blast
  }
  define st0 where "st0 = (if is_push_finished st i key = None then reset_pull_state i key st else st)"
  have st0: "NumWorkers st0 = NumWorkers st" "update_buf st0 = update_buf st" "trace st0 = trace st"
    "pull_cnt st0 i key = pull_cnt st i key" "seen_sender st0 i key = seen_sender st i key"
    "q_pull_reqmeta st0 = q_pull_reqmeta st"
    "is_push_finished st0 i key = Some (is_push_finished st i key = Some True)"
    using emp cnt by (auto simp: st0_def reset_pull_state_fields)
  {
    assume "ba_tensor stored = 0"
    then show "BytePSHandlePull key type stored req_meta req_data i st = Inl Fatal"
      by (simp add: BytePSHandlePull_def)
  }
  {
    assume stored: "ba_tensor stored \<noteq> 0"
    show "\<exists>st'. BytePSHandlePull key type stored req_meta req_data i st = Inr st'
               \<and> pull_inv st' i key
               \<and> (if is_push_finished st i key = Some True
                      \<and> meta_sender req_meta \<notin> seen_sender st i key
                   then pulls_served st st' i key True [req_meta]
                        \<and> q_pull_reqmeta st' i key = q_pull_reqmeta st i key
                   else pulls_served st st' i key (is_push_finished st i key = Some True) []
                        \<and> q_pull_reqmeta st' i key = q_pull_reqmeta st i key @ [req_meta])"
    proof (cases "is_push_finished st i key = Some True
                      \<and> meta_sender req_meta \<notin> seen_sender st i key")
      case True
      then have same: "st0 = st" by (simp add: st0_def)
      have nz: "ba_tensor (ub_merged (update_buf st key)) \<noteq> 0"
        using True set by simp
      obtain kv where kv: "SendPullResponse type key req_meta st =
           Inr (st\<lparr>pull_response_map := (pull_response_map st)(key \<mapsto> kv),
                   trace := trace st @ [Response req_meta kv]\<rparr>)"
        "kv_vals kv = (ba_tensor (ub_merged (update_buf st key)), ba_len (ub_merged (update_buf st key)))"
        "kv_lens kv = [ba_len (ub_merged (update_buf st key))]"
        using SendPullResponse_result [OF nz] by blast
      define st2 where "st2 = count_pull i key (meta_sender req_meta)
          (st\<lparr>pull_response_map := (pull_response_map st)(key \<mapsto> kv),
              trace := trace st @ [Response req_meta kv]\<rparr>)"
      have st2: "NumWorkers st2 = NumWorkers st" "update_buf st2 = update_buf st"
        "trace st2 = trace st @ [Response req_meta kv]"
        "is_push_finished st2 = is_push_finished st"
        "pull_cnt st2 i key = pull_cnt st i key + 1"
        "seen_sender st2 i key = insert (meta_sender req_meta) (seen_sender st i key)"
        "q_pull_reqmeta st2 = q_pull_reqmeta st"
        by (simp_all add: st2_def count_pull_fields)
      define st' where "st' = (if pull_cnt st2 i key = NumWorkers st2
                               then reset_pull_state i key st2 else st2)"
      have run: "BytePSHandlePull key type stored req_meta req_data i st = Inr st'"
        using stored assms(1,2) True kv(1)
        by (simp add: BytePSHandlePull_def Let_def st'_def st2_def)
      have ps: "pulls_served st st' i key True [req_meta]"
        unfolding pulls_served_def
        using True kv(2,3) st2 lt
        by (auto simp: st'_def reset_pull_state_fields intro!: exI [of _ "[kv]"])
      have nw: "NumWorkers st' = NumWorkers st"
        using st2 by (simp add: st'_def reset_pull_state_fields)
      have "pull_inv st' i key"
        using pulls_served_inv [OF assms(3) nw ps] nz by simp
      moreover have "q_pull_reqmeta st' i key = q_pull_reqmeta st i key"
        using st2 by (simp add: st'_def reset_pull_state_fields)
      ultimately show ?thesis
        using run ps True by auto
    next
      case False
      define st' where "st' = st0\<lparr>q_pull_reqmeta :=
          (q_pull_reqmeta st0)(i := (q_pull_reqmeta st0 i)(key := q_pull_reqmeta st0 i key @ [req_meta]))\<rparr>"
      have run: "BytePSHandlePull key type stored req_meta req_data i st = Inr st'"
        using stored assms(1,2) False st0(5,7)
        by (auto simp: BytePSHandlePull_def Let_def st'_def st0_def reset_pull_state_fields)
      have ps: "pulls_served st st' i key (is_push_finished st i key = Some True) []"
        unfolding pulls_served_def
        using st0 lt by (simp add: st'_def)
      have nw: "NumWorkers st' = NumWorkers st"
        using st0 by (simp add: st'_def)
      have "pull_inv st' i key"
        using pulls_served_inv [OF assms(3) nw ps] set by auto
      moreover have "q_pull_reqmeta st' i key = q_pull_reqmeta st i key @ [req_meta]"
        using st0 by (simp add: st'_def)
      ultimately show ?thesis
        using run ps False by auto
    qed
  }
qed

theorem pull_bookkeeping_invariant_witness:
  "pull_inv ((server_init True False 2)
       \<lparr>q_pull_reqmeta := (\<lambda>_ _. [])
          (0 := (\<lambda>_. [])
             (7 := [\<lparr>meta_cmd = 0, meta_push = False, meta_sender = 9, meta_timestamp = 0\<rparr>,
                    \<lparr>meta_cmd = 0, meta_push = False, meta_sender = 9, meta_timestamp = 1\<rparr>,
                    \<lparr>meta_cmd = 0, meta_push = False, meta_sender = 11, meta_timestamp = 2\<rparr>]))\<rparr>)
     0 7
   \<and> map_sum id (\<lambda>s. (trace s, is_push_finished s 0 7, pull_cnt s 0 7, seen_sender s 0 7,
                        q_pull_reqmeta s 0 7, ub_merged (update_buf s 7)))
       (BytePSServerEngineThread_body 0
          \<lparr>msg_id = 5, msg_type = \<lparr>dh_requestType = kDefaultPushPull, dh_dtype = 0\<rparr>,
           msg_key = 7, msg_dst = 1000, msg_src = 1000, msg_len = 16, msg_ops = ALL_RECV,
           msg_sarray = KVPairs_empty,
           msg_req_meta = \<lparr>meta_cmd = 0, meta_push = True, meta_sender = 11, meta_timestamp = 1\<rparr>,
           msg_mixed_precision = False\<rparr>
          ((server_init True False 2)
             \<lparr>q_pull_reqmeta := (\<lambda>_ _. [])
                (0 := (\<lambda>_. [])
                   (7 := [\<lparr>meta_cmd = 0, meta_push = False, meta_sender = 9, meta_timestamp = 0\<rparr>,
                          \<lparr>meta_cmd = 0, meta_push = False, meta_sender = 9, meta_timestamp = 1\<rparr>,
                          \<lparr>meta_cmd = 0, meta_push = False, meta_sender = 11, meta_timestamp = 2\<rparr>]))\<rparr>))
     = Inr ([Response \<lparr>meta_cmd = 0, meta_push = False, meta_sender = 9, meta_timestamp = 0\<rparr>
               \<lparr>kv_keys = [EncodeKey 7], kv_vals = (1000, 16), kv_lens = [16]\<rparr>,
             Response \<lparr>meta_cmd = 0, meta_push = False, meta_sender = 11, meta_timestamp = 2\<rparr>
               \<lparr>kv_keys = [EncodeKey 7], kv_vals = (1000, 16), kv_lens = [16]\<rparr>],
            Some False, 0, {},
            [\<lparr>meta_cmd = 0, meta_push = False, meta_sender = 9, meta_timestamp = 1\<rparr>],
            \<lparr>ba_tensor = 1000, ba_len = 16, ba_dtype = 0, ba_tmp_sarray = KVPairs_empty\<rparr>)
   \<and> map_sum id (\<lambda>s. (trace s, is_push_finished s 0 7, pull_cnt s 0 7, seen_sender s 0 7,
                        q_pull_reqmeta s 0 7, ub_merged (update_buf s 7)))
       (BytePSHandlePull 7 \<lparr>dh_requestType = kDefaultPushPull, dh_dtype = 0\<rparr>
          \<lparr>ba_tensor = 1000, ba_len = 16, ba_dtype = 0, ba_tmp_sarray = KVPairs_empty\<rparr>
          \<lparr>meta_cmd = 0, meta_push = False, meta_sender = 11, meta_timestamp = 3\<rparr>
          KVPairs_empty 0
          ((server_init True False 2)
             \<lparr>q_pull_reqmeta := (\<lambda>_ _. [])
                (0 := (\<lambda>_. [])
                   (7 := [\<lparr>meta_cmd = 0, meta_push = False, meta_sender = 9, meta_timestamp = 0\<rparr>,
                          \<lparr>meta_cmd = 0, meta_push = False, meta_sender = 9, meta_timestamp = 1\<rparr>,
                          \<lparr>meta_cmd = 0, meta_push = False, meta_sender = 11, meta_timestamp = 2\<rparr>]))\<rparr>))
     = Inr ([], Some False, 0, {},
            [\<lparr>meta_cmd = 0, meta_push = False, meta_sender = 9, meta_timestamp = 0\<rparr>,
             \<lparr>meta_cmd = 0, meta_push = False, meta_sender = 9, meta_timestamp = 1\<rparr>,
             \<lparr>meta_cmd = 0, meta_push = False, meta_sender = 11, meta_timestamp = 2\<rparr>,
             \<lparr>meta_cmd = 0, meta_push = False, meta_sender = 11, meta_timestamp = 3\<rparr>],
            \<lparr>ba_tensor = 0, ba_len = 0, ba_dtype = 0, ba_tmp_sarray = KVPairs_empty\<rparr>)"
  using pull_bookkeeping_invariant
    [where st = "(server_init True False 2)
       \<lparr>q_pull_reqmeta := (\<lambda>_ _. [])
          (0 := (\<lambda>_. [])
             (7 := [\<lparr>meta_cmd = 0, meta_push = False, meta_sender = 9, meta_timestamp = 0\<rparr>,
                    \<lparr>meta_cmd = 0, meta_push = False, meta_sender = 9, meta_timestamp = 1\<rparr>,
                    \<lparr>meta_cmd = 0, meta_push = False, meta_sender = 11, meta_timestamp = 2\<rparr>]))\<rparr>"
       and i = 0 and key = 7
       and msg = "\<lparr>msg_id = 5, msg_type = \<lparr>dh_requestType = kDefaultPushPull, dh_dtype = 0\<rparr>,
           msg_key = 7, msg_dst = 1000, msg_src = 1000, msg_len = 16, msg_ops = ALL_RECV,
           msg_sarray = KVPairs_empty,
           msg_req_meta = \<lparr>meta_cmd = 0, meta_push = True, meta_sender = 11, meta_timestamp = 1\<rparr>,
           msg_mixed_precision = False\<rparr>"
       and stored = "\<lparr>ba_tensor = 1000, ba_len = 16, ba_dtype = 0, ba_tmp_sarray = KVPairs_empty\<rparr>"
       and type = "\<lparr>dh_requestType = kDefaultPushPull, dh_dtype = 0\<rparr>"
       and req_meta = "\<lparr>meta_cmd = 0, meta_push = False, meta_sender = 11, meta_timestamp = 3\<rparr>"
       and req_data = KVPairs_empty]
  by (simp add: server_init_def pull_inv_def BytePSServerEngineThread_body_def
        EngineThread_compress_def set_merged_def EngineThread_case_ALL_RECV_def
        BytePSHandlePull_def SendPullResponse_def reset_pull_state_def count_pull_def
        UpdateBuf_empty_def Let_def)

section \<open>Properties of the top-k selection\<close>

lemma topk_rank_set: "set (topk_rank src) = set (enumerate 0 src)"
  by (simp add: topk_rank_def)

lemma topk_rank_length: "length (topk_rank src) = length src"
  by (simp add: topk_rank_def)

lemma topk_rank_distinct: "distinct (topk_rank src)"
  by (simp add: topk_rank_def distinct_enumerate)

lemma topk_rank_sorted: "sorted (map (\<lambda>(i, x). (- \<bar>x\<bar>, i)) (topk_rank src))"
  by (simp add: topk_rank_def)

lemma topk_rank_mem:
  "(i, x) \<in> set (topk_rank src) \<longleftrightarrow> i < length src \<and> x = src ! i"
  by (auto simp: topk_rank_set in_set_enumerate_eq)

lemma topk_rank_split:
  assumes "p \<in> set (take k (topk_rank src))" and "q \<in> set (drop k (topk_rank src))"
  shows "\<bar>snd q\<bar> < \<bar>snd p\<bar> \<or> (\<bar>snd q\<bar> = \<bar>snd p\<bar> \<and> fst p < fst q)"
proof -
  let ?f = "\<lambda>(i, x :: 'a). (- \<bar>x\<bar>, i)"
  have "sorted (map ?f (take k (topk_rank src)) @ map ?f (drop k (topk_rank src)))"
    using topk_rank_sorted [of src] by (simp flip: map_append)
  then have le: "?f p \<le> ?f q"
    using assms by (auto simp: sorted_append)
  have "set (take k (topk_rank src)) \<inter> set (drop k (topk_rank src)) = {}"
    using topk_rank_distinct [of src] by (intro set_take_disj_set_drop_if_distinct) simp_all
  then have "p \<noteq> q"
    using assms by auto
  moreover have "p \<in> set (topk_rank src)" "q \<in> set (topk_rank src)"
    using assms by (auto dest: in_set_takeD in_set_dropD)
  ultimately have "fst p \<noteq> fst q"
    by (cases p; cases q) (auto simp: topk_rank_mem)
  with le show ?thesis
    by (cases p; cases q) (auto simp: less_eq_prod_def)
qed

lemma unat_word_of_nat_32: "i < 2 ^ 32 \<Longrightarrow> unat (word_of_nat i :: 32 word) = i"
  by (simp add: unat_of_nat)

lemma scatter_nth:
  assumes "distinct (map fst ps)" and "j < length dst"
  shows "fold (\<lambda>(i, x) dst. dst[i := x]) ps dst ! j
           = (case map_of ps j of None \<Rightarrow> dst ! j | Some x \<Rightarrow> x)"
  using assms
proof (induction ps arbitrary: dst)
  case Nil
  then show ?case by simp
next
  case (Cons p ps)
  obtain i x where p: "p = (i, x)" by (cases p)
  have "map_of ps i = None"
    using Cons.prems(1) p by (simp add: map_of_eq_None_iff)
  then show ?case
    using Cons p by (auto simp: nth_list_update split: option.split)
qed

lemma scatter_length: "length (fold (\<lambda>(i, x) dst. dst[i := x]) ps dst) = length dst"
  by (induction ps arbitrary: dst) auto

text \<open>
  Claim C3. For a tensor of \<open>n \<le> 2^32\<close> scalars and \<open>k \<le> n\<close>, Compress writes \<open>k\<close> pairs,
  of byte length \<open>k \<cdot> (4 + sizeof(scalar))\<close>, with different indices below \<open>n\<close>, each pair
  holding the value of the tensor at its index; every entry that is not written has a
  smaller absolute value than every entry that is written, or the same absolute value
  and a larger index. Decompress into \<open>n\<close> scalars gives the value at the written
  indices and zero elsewhere. The instance below is the example of the specification:
  \<open>k = 2\<close> on \<open>[0.1, -0.9, 0.3, 0.8]\<close> gives the pairs \<open>(1, -0.9)\<close> and \<open>(3, 0.8)\<close>, and
  Decompress gives \<open>[0, -0.9, 0, 0.8]\<close>.
\<close>

theorem TopkCompressor_selects_largest:
  fixes src :: "'a::linordered_idom list"
  assumes "k \<le> length src" and "length src \<le> 2 ^ 32"
  shows "length (TopkCompressor_CompressImpl k src) = k
    \<and> TopkCompressor_compressed_size (TopkCompressor_CompressImpl k src) scalar_size
        = k * (4 + scalar_size)
    \<and> distinct (map fst (TopkCompressor_CompressImpl k src))
    \<and> (\<forall>(i, v) \<in> set (TopkCompressor_CompressImpl k src).
          unat i < length src \<and> v = src ! unat i
          \<and> (\<forall>j < length src. j \<notin> unat ` fst ` set (TopkCompressor_CompressImpl k src) \<longrightarrow>
                \<bar>src ! j\<bar> < \<bar>v\<bar> \<or> (\<bar>src ! j\<bar> = \<bar>v\<bar> \<and> unat i < j)))
    \<and> TopkCompressor_DecompressImpl (length src) (TopkCompressor_CompressImpl k src)
        = map (\<lambda>j. if j \<in> unat ` fst ` set (TopkCompressor_CompressImpl k src) then src ! j else 0)
            [0..<length src]"
proof -
  let ?top = "take k (topk_rank src)"
  let ?out = "TopkCompressor_CompressImpl k src"
  have out: "?out = map (\<lambda>(i, x). (word_of_nat i, x)) ?top"
    by (simp add: TopkCompressor_CompressImpl_def)
  have len: "length ?out = k"
    using assms(1) by (simp add: out topk_rank_length)
  have top_mem: "i < length src \<and> x = src ! i" if "(i, x) \<in> set ?top" for i x
    using that topk_rank_mem [of i x src] by (auto dest: in_set_takeD)
  have un: "unat (word_of_nat i :: 32 word) = i" if "(i, x) \<in> set ?top" for i x
    using top_mem [OF that] assms(2) by (intro unat_word_of_nat_32) simp
  have idx: "map (unat \<circ> fst) ?out = map fst ?top"
    using un by (auto simp: out)
  have dtop: "distinct (map fst ?top)"
  proof -
    have "distinct (map fst (topk_rank src))"
      using topk_rank_distinct [of src]
      by (auto simp: distinct_map inj_on_def topk_rank_mem)
    then show ?thesis
      by (simp add: take_map [symmetric] distinct_take)
  qed
  have dout: "distinct (map fst ?out)"
  proof -
    have "distinct (map (unat \<circ> fst) ?out)"
      using dtop by (simp only: idx)
    then show ?thesis
      by (auto simp: distinct_map inj_on_def)
  qed
  have sel_set: "unat ` fst ` set ?out = fst ` set ?top"
  proof -
    have "set (map (unat \<circ> fst) ?out) = set (map fst ?top)"
      by (simp only: idx)
    then show ?thesis
      by (simp only: set_map image_comp)
  qed
  have sel: "\<bar>src ! j\<bar> < \<bar>x\<bar> \<or> (\<bar>src ! j\<bar> = \<bar>x\<bar> \<and> i < j)"
    if "(i, x) \<in> set ?top" and "j < length src" and "j \<notin> fst ` set ?top" for i x j
  proof -
    have "(j, src ! j) \<in> set (topk_rank src)"
      using that(2) by (simp add: topk_rank_mem)
    then have "(j, src ! j) \<in> set ?top \<union> set (drop k (topk_rank src))"
      by (metis append_take_drop_id set_append)
    then have "(j, src ! j) \<in> set (drop k (topk_rank src))"
      using that(3) by force
    from topk_rank_split [OF that(1) this] show ?thesis by simp
  qed
  have pairs: "\<forall>(i, v) \<in> set ?out.
          unat i < length src \<and> v = src ! unat i
          \<and> (\<forall>j < length src. j \<notin> unat ` fst ` set ?out \<longrightarrow>
                \<bar>src ! j\<bar> < \<bar>v\<bar> \<or> (\<bar>src ! j\<bar> = \<bar>v\<bar> \<and> unat i < j))"
  proof (clarify, intro conjI allI impI)
    fix w v assume "(w, v) \<in> set ?out"
    then obtain i where i: "(i, v) \<in> set ?top" "w = word_of_nat i"
      by (auto simp: out)
    have ui: "unat w = i" using un [OF i(1)] i(2) by simp
    show "unat w < length src" using top_mem [OF i(1)] ui by simp
    show "v = src ! unat w" using top_mem [OF i(1)] ui by simp
    fix j assume "j < length src" "j \<notin> unat ` fst ` set ?out"
    then show "\<bar>src ! j\<bar> < \<bar>v\<bar> \<or> (\<bar>src ! j\<bar> = \<bar>v\<bar> \<and> unat w < j)"
      using sel [OF i(1)] ui sel_set by simp
  qed
  have dec: "TopkCompressor_DecompressImpl (length src) ?out
        = map (\<lambda>j. if j \<in> unat ` fst ` set ?out then src ! j else 0) [0..<length src]"
  proof (rule nth_equalityI)
    have fold_eq: "fold (\<lambda>(i, x) dst. dst[unat i := x]) ?out dst
        = fold (\<lambda>(i, x) dst. dst[i := x]) ?top dst" for dst :: "'a list"
    proof -
      have "fold (\<lambda>(i, x) dst. dst[unat i := x]) (map (\<lambda>(i, x). (word_of_nat i :: 32 word, x)) ps) dst
        = fold (\<lambda>(i, x) dst. dst[i := x]) ps dst"
        if "set ps \<subseteq> set ?top" for ps
        using that
      proof (induction ps arbitrary: dst)
        case Nil
        show ?case by simp
      next
        case (Cons p ps)
        obtain i x where p: "p = (i, x)" by (cases p)
        have "unat (word_of_nat i :: 32 word) = i"
          using Cons.prems p un by auto
        then show ?case
          using Cons p by simp
      qed
      then show ?thesis by (simp add: out)
    qed
    show l: "length (TopkCompressor_DecompressImpl (length src) ?out)
        = length (map (\<lambda>j. if j \<in> unat ` fst ` set ?out then src ! j else 0) [0..<length src])"
      by (simp add: TopkCompressor_DecompressImpl_def fold_eq scatter_length)
    fix j assume "j < length (TopkCompressor_DecompressImpl (length src) ?out)"
    then have j: "j < length src"
      by (simp add: TopkCompressor_DecompressImpl_def fold_eq scatter_length)
    have "TopkCompressor_DecompressImpl (length src) ?out ! j
        = (case map_of ?top j of None \<Rightarrow> 0 | Some x \<Rightarrow> x)"
      using scatter_nth [OF dtop, of j "replicate (length src) 0"] j
      by (simp add: TopkCompressor_DecompressImpl_def fold_eq split: option.split)
    also have "\<dots> = (if j \<in> fst ` set ?top then src ! j else 0)"
    proof (cases "map_of ?top j")
      case None
      then have "j \<notin> fst ` set ?top" by (simp add: map_of_eq_None_iff)
      with None show ?thesis by simp
    next
      case (Some x)
      then have "(j, x) \<in> set ?top" by (rule map_of_SomeD)
      then show ?thesis
        using Some top_mem [of j x] by force
    qed
    finally show "TopkCompressor_DecompressImpl (length src) ?out ! j
        = map (\<lambda>j. if j \<in> unat ` fst ` set ?out then src ! j else 0) [0..<length src] ! j"
      using j sel_set by simp
  qed
  show ?thesis
    using len dout pairs dec by (simp add: TopkCompressor_compressed_size_def)
qed

theorem TopkCompressor_selects_largest_witness:
  "(2::nat) \<le> length [0.1, - 0.9, 0.3, 0.8 :: real]
   \<and> TopkCompressor_CompressImpl 2 [0.1, - 0.9, 0.3, 0.8 :: real] = [(1, - 0.9), (3, 0.8)]
   \<and> TopkCompressor_compressed_size (TopkCompressor_CompressImpl 2 [0.1, - 0.9, 0.3, 0.8 :: real]) 4
       = 16
   \<and> TopkCompressor_DecompressImpl 4 (TopkCompressor_CompressImpl 2 [0.1, - 0.9, 0.3, 0.8 :: real])
       = [0, - 0.9, 0, 0.8]"
proof -
  have c: "TopkCompressor_CompressImpl 2 [0.1, - 0.9, 0.3, 0.8 :: real] = [(1, - 0.9), (3, 0.8)]"
    by (simp add: TopkCompressor_CompressImpl_def topk_rank_def enumerate_eq_zip upt_rec)
  have h: "(2::nat) \<le> length [0.1, - 0.9, 0.3, 0.8 :: real]"
       "length [0.1, - 0.9, 0.3, 0.8 :: real] \<le> 2 ^ 32"
    by simp_all
  have r: "replicate 4 (0::real) = [0, 0, 0, 0]"
    by (simp add: numeral_eq_Suc)
  have "unat (3 :: 32 word) = 3"
    by simp
  then have u: "unat (1 :: 32 word) = Suc 0" "unat (3 :: 32 word) = Suc (Suc (Suc 0))"
    by (simp_all only: unat_1 One_nat_def numeral_3_eq_3)
  have d: "TopkCompressor_DecompressImpl 4 [(1, - 0.9), (3, 0.8 :: real)] = [0, - 0.9, 0, 0.8]"
    unfolding TopkCompressor_DecompressImpl_def r by (simp add: u)
  from TopkCompressor_selects_largest [OF h, of 4] c d h(1)
  show ?thesis
    by (simp add: TopkCompressor_compressed_size_def)
qed

end
